theory Spec2Isabelle
  imports Complex_Main "HOL-Library.Monad_Syntax" "HOL-Library.Multiset"
begin

section \<open>State codec of the taxi-with-fuel environment\<close>

text \<open>
  Indices and state components are Python integers, hence of type \<open>int\<close> here. The
  floor division and the remainder used by the decoder behave like the integer division
  and remainder of HOL, for negative arguments too.
\<close>

definition encode :: "int \<Rightarrow> int \<Rightarrow> int \<Rightarrow> int \<Rightarrow> int \<Rightarrow> int" where
  "encode taxi_row taxi_col pass_loc dest_idx fuel =
     (((taxi_row * 5 + taxi_col) * 5 + pass_loc) * 4 + dest_idx) * 11 + fuel"

text \<open>
  \<open>decode\<close> collects the five components, checks the assertion on the last quotient and
  hands back the components in the order row, column, passenger, destination, fuel.
  A failed assertion is the value \<open>None\<close>.
\<close>

definition decode :: "int \<Rightarrow> (int \<times> int \<times> int \<times> int \<times> int) option" where
  "decode i =
     (let fuel = i mod 11; i1 = i div 11;
          dest_idx = i1 mod 4; i2 = i1 div 4;
          pass_loc = i2 mod 5; i3 = i2 div 5;
          taxi_col = i3 mod 5; i4 = i3 div 5
      in if 0 \<le> i4 \<and> i4 < 5
         then Some (i4, taxi_col, pass_loc, dest_idx, fuel)
         else None)"

text \<open>The ranges of the five components of a structured state.\<close>

definition valid_state :: "int \<times> int \<times> int \<times> int \<times> int \<Rightarrow> bool" where
  "valid_state k = (case k of (taxi_row, taxi_col, pass_loc, dest_idx, fuel) \<Rightarrow>
     0 \<le> taxi_row \<and> taxi_row < 5 \<and> 0 \<le> taxi_col \<and> taxi_col < 5 \<and>
     0 \<le> pass_loc \<and> pass_loc < 5 \<and> 0 \<le> dest_idx \<and> dest_idx < 4 \<and>
     0 \<le> fuel \<and> fuel < 11)"

section \<open>The grid\<close>

definition MAP :: "string list" where
  "MAP = [
    ''+---------+'',
    ''|R: |F: :G|'',
    ''| : | : : |'',
    ''| : : : : |'',
    ''| | : | : |'',
    ''|Y| : |B: |'',
    ''+---------+'']"

text \<open>
  Indexing a Python list or a numpy axis with an integer: a negative index counts from the
  end, and an index outside \<open>[-n, n)\<close> raises, which is \<open>None\<close> here.
\<close>

definition py_index :: "'a list \<Rightarrow> int \<Rightarrow> 'a option" where
  "py_index xs i =
     (let n = int (length xs)
      in if 0 \<le> i \<and> i < n then Some (xs ! nat i)
         else if - n \<le> i \<and> i < 0 then Some (xs ! nat (i + n))
         else None)"

text \<open>The character array \<open>desc\<close> built from \<open>MAP\<close>, read at a row and a column.\<close>

definition desc :: "int \<Rightarrow> int \<Rightarrow> char option" where
  "desc r c = do { line \<leftarrow> py_index MAP r; py_index line c }"

definition locs :: "(int \<times> int) list" where
  "locs = [(0, 0), (0, 4), (4, 0), (4, 3)]"

definition fuel_station :: "int \<times> int" where
  "fuel_station = (0, 2)"

text \<open>\<open>list.index\<close>: the position of the first occurrence; not found is \<open>None\<close>.\<close>

fun list_index :: "'a list \<Rightarrow> 'a \<Rightarrow> int option" where
  "list_index [] x = None"
| "list_index (y # ys) x =
     (if y = x then Some 0 else map_option (\<lambda>i. i + 1) (list_index ys x))"

definition num_states :: int where "num_states = 5500"
definition num_rows :: int where "num_rows = 5"
definition num_columns :: int where "num_columns = 5"
definition max_fuel :: int where "max_fuel = 10"
definition max_row :: int where "max_row = num_rows - 1"
definition max_col :: int where "max_col = num_columns - 1"
definition num_actions :: int where "num_actions = 7"

section \<open>One transition\<close>

text \<open>The local variables of the innermost loop body.\<close>

record locals =
  new_row :: int
  new_col :: int
  new_pass_idx :: int
  new_fuel :: int
  reward :: int
  done_flag :: bool
  moved :: bool

text \<open>
  The first conditional handles south and north. It is a statement of its own: the
  conditional for east, west, pickup, dropoff and refill starts afresh after it.
\<close>

definition vertical :: "int \<Rightarrow> int \<Rightarrow> locals \<Rightarrow> locals" where
  "vertical row action v =
     (if action = 0 then
        (let v1 = v\<lparr>new_row := min (row + 1) max_row\<rparr>
         in if row \<noteq> max_row then v1\<lparr>moved := True\<rparr> else v1)
      else if action = 1 then
        (let v1 = v\<lparr>new_row := max (row - 1) 0\<rparr>
         in if row \<noteq> 0 then v1\<lparr>moved := True\<rparr> else v1)
      else v)"

text \<open>
  The tests \<open>action == 2 and desc[...] == b":"\<close> read the map only when the action
  matches (\<open>and\<close> stops at a false left operand).
\<close>

definition east_test :: "int \<Rightarrow> int \<Rightarrow> int \<Rightarrow> bool option" where
  "east_test row col action =
     (if action = 2 then map_option (\<lambda>ch. ch = CHR '':'') (desc (1 + row) (2 * col + 2))
      else Some False)"

definition west_test :: "int \<Rightarrow> int \<Rightarrow> int \<Rightarrow> bool option" where
  "west_test row col action =
     (if action = 3 then map_option (\<lambda>ch. ch = CHR '':'') (desc (1 + row) (2 * col))
      else Some False)"

definition pickup_test :: "int \<times> int \<Rightarrow> int \<Rightarrow> bool option" where
  "pickup_test taxi_loc pass_idx =
     (if pass_idx < 4 then map_option (\<lambda>l. taxi_loc = l) (py_index locs pass_idx)
      else Some False)"

definition pickup :: "int \<times> int \<Rightarrow> int \<Rightarrow> locals \<Rightarrow> locals option" where
  "pickup taxi_loc pass_idx v = do {
     b \<leftarrow> pickup_test taxi_loc pass_idx;
     Some (if b then v\<lparr>new_pass_idx := 4\<rparr> else v\<lparr>reward := - 10\<rparr>)
   }"

definition dropoff :: "int \<times> int \<Rightarrow> int \<Rightarrow> int \<Rightarrow> locals \<Rightarrow> locals option" where
  "dropoff taxi_loc pass_idx dest_idx v = do {
     dest_loc \<leftarrow> py_index locs dest_idx;
     if taxi_loc = dest_loc \<and> pass_idx = 4 then
       Some (v\<lparr>new_pass_idx := dest_idx, done_flag := True, reward := 20\<rparr>)
     else if taxi_loc \<in> set locs \<and> pass_idx = 4 then do {
       j \<leftarrow> list_index locs taxi_loc;
       Some (v\<lparr>new_pass_idx := j\<rparr>)
     }
     else Some (v\<lparr>reward := - 10\<rparr>)
   }"

definition refill :: "int \<times> int \<Rightarrow> locals \<Rightarrow> locals" where
  "refill taxi_loc v =
     (if taxi_loc = fuel_station then v\<lparr>new_fuel := 10\<rparr> else v\<lparr>reward := - 10\<rparr>)"

definition horizontal_and_rest ::
  "int \<Rightarrow> int \<Rightarrow> int \<Rightarrow> int \<Rightarrow> int \<Rightarrow> locals \<Rightarrow> locals option" where
  "horizontal_and_rest row col pass_idx dest_idx action v = do {
     e \<leftarrow> east_test row col action;
     if e then
       (let v1 = v\<lparr>new_col := min (col + 1) max_col\<rparr>
        in Some (if col \<noteq> max_col then v1\<lparr>moved := True\<rparr> else v1))
     else do {
       w \<leftarrow> west_test row col action;
       if w then
         (let v1 = v\<lparr>new_col := max (col - 1) 0\<rparr>
          in Some (if col \<noteq> 0 then v1\<lparr>moved := True\<rparr> else v1))
       else if action = 4 then pickup (row, col) pass_idx v
       else if action = 5 then dropoff (row, col) pass_idx dest_idx v
       else if action = 6 then Some (refill (row, col) v)
       else Some v
     }
   }"

definition consume_fuel :: "int \<Rightarrow> locals \<Rightarrow> locals" where
  "consume_fuel fuel v =
     (if moved v then
        (let v1 = (if fuel = 0 then v\<lparr>reward := - 10\<rparr> else v)
         in v1\<lparr>new_fuel := max 0 (fuel - 1)\<rparr>)
      else v)"

text \<open>
  The body of the loop over actions up to the call of \<open>encode\<close>: the values of the local
  variables after the defaults, the two conditionals and the fuel rule.
\<close>

definition transition ::
  "int \<Rightarrow> int \<Rightarrow> int \<Rightarrow> int \<Rightarrow> int \<Rightarrow> int \<Rightarrow> locals option" where
  "transition row col pass_idx dest_idx fuel action = do {
     let v0 = \<lparr>new_row = row, new_col = col, new_pass_idx = pass_idx, new_fuel = fuel,
               reward = - 1, done_flag = False, moved = False\<rparr>;
     let v1 = vertical row action v0;
     v2 \<leftarrow> horizontal_and_rest row col pass_idx dest_idx action v1;
     Some (consume_fuel fuel v2)
   }"

section \<open>Double-precision numbers\<close>

text \<open>
  The vector of initial weights is a numpy array of \<open>float64\<close>. A finite \<open>float64\<close> is
  represented by the real number it stands for, and every arithmetic operation of the
  source is the exact operation followed by the rounding of IEEE 754 binary64: to the
  nearest representable number, a tie going to the even significand. An operation whose
  IEEE result is not a finite number (an overflow, a division by zero) has no real value;
  numpy then only warns and stores \<open>inf\<close> or \<open>nan\<close>. The model has no such values and
  answers \<open>None\<close> there, so a result \<open>Some\<close> also says that no operation left the finite
  numbers.
\<close>

text \<open>The nearest integer, a tie going to the even one.\<close>

definition round_even :: "real \<Rightarrow> int" where
  "round_even x =
     (let n = \<lfloor>x\<rfloor>; r = x - of_int n
      in if r < 1 / 2 then n else if 1 / 2 < r then n + 1 else if even n then n else n + 1)"

text \<open>
  The binary exponent of a magnitude, searched upwards from the least exponent of the
  format: from \<open>e\<close>, at most \<open>n\<close> steps are taken while the next power of two is not above
  \<open>x\<close>. With \<open>-1022\<close> and 2045 steps the result lies in \<open>[-1022, 1023]\<close>; magnitudes below
  \<open>2^-1022\<close> (subnormal numbers and zero) share the exponent \<open>-1022\<close>.
\<close>

primrec find_exponent :: "nat \<Rightarrow> int \<Rightarrow> real \<Rightarrow> int" where
  "find_exponent 0 e x = e"
| "find_exponent (Suc n) e x =
     (if 2 powi (e + 1) \<le> x then find_exponent n (e + 1) x else e)"

definition float64_exponent :: "real \<Rightarrow> int" where
  "float64_exponent x = find_exponent 2045 (- 1022) \<bar>x\<bar>"

text \<open>
  Rounding to \<open>float64\<close>: the significand has 53 bits, so the spacing of the format around
  \<open>x\<close> is \<open>2^(e - 52)\<close>. A rounded magnitude of \<open>2^1024\<close> or more is an overflow.
\<close>

definition float64_round :: "real \<Rightarrow> real option" where
  "float64_round x =
     (let u = 2 powi (float64_exponent x - 52);
          y = of_int (round_even (x / u)) * u
      in if \<bar>y\<bar> < 2 ^ 1024 then Some y else None)"

definition float64_add :: "real \<Rightarrow> real \<Rightarrow> real option" where
  "float64_add x y = float64_round (x + y)"

definition float64_divide :: "real \<Rightarrow> real \<Rightarrow> real option" where
  "float64_divide x y = (if y = 0 then None else float64_round (x / y))"

text \<open>
  Floating-point additions of given summands in an arbitrary order and grouping. It
  serves only to show that, for the vector summed by the constructor, the order in which
  numpy adds the entries does not matter.
\<close>

datatype summation = Entry real | Add summation summation

primrec summands :: "summation \<Rightarrow> real list" where
  "summands (Entry x) = [x]"
| "summands (Add l r) = summands l @ summands r"

primrec float64_sum :: "summation \<Rightarrow> real option" where
  "float64_sum (Entry x) = Some x"
| "float64_sum (Add l r) = do {
     a \<leftarrow> float64_sum l;
     b \<leftarrow> float64_sum r;
     float64_add a b
   }"

section \<open>Construction of the transition table and the initial distribution\<close>

text \<open>
  An outcome is the tuple (probability, next state, reward, done). The probability is the
  literal \<open>1.0\<close>, the number 1.
\<close>

type_synonym outcome = "real \<times> int \<times> int \<times> bool"

text \<open>The dictionary of dictionaries \<open>P\<close>: state, then action, then a list of outcomes.\<close>

type_synonym table = "int \<rightharpoonup> (int \<rightharpoonup> outcome list)"

text \<open>A \<open>for\<close> loop whose body may raise: the first failure ends the loop with \<open>None\<close>.\<close>

fun for_each :: "('a \<Rightarrow> 's \<Rightarrow> 's option) \<Rightarrow> 'a list \<Rightarrow> 's \<Rightarrow> 's option" where
  "for_each body [] s = Some s"
| "for_each body (x # xs) s = (case body x s of None \<Rightarrow> None | Some s' \<Rightarrow> for_each body xs s')"

text \<open>\<open>range(n)\<close> for \<open>for\<close> loops.\<close>

definition py_range :: "int \<Rightarrow> int list" where
  "py_range n = [0..n - 1]"

text \<open>The table before the loops: every state and action is a key, every list is empty.\<close>

definition empty_table :: table where
  "empty_table = (\<lambda>state.
     if state \<in> set (py_range num_states)
     then Some (\<lambda>action. if action \<in> set (py_range num_actions) then Some [] else None)
     else None)"

text \<open>\<open>P[state][action].append(x)\<close>; a missing key raises.\<close>

definition append_outcome :: "table \<Rightarrow> int \<Rightarrow> int \<Rightarrow> outcome \<Rightarrow> table option" where
  "append_outcome P state action x = do {
     entry \<leftarrow> P state;
     l \<leftarrow> entry action;
     Some (P(state \<mapsto> entry(action \<mapsto> l @ [x])))
   }"

text \<open>\<open>a[i] += 1\<close> on a one-dimensional numpy array of \<open>float64\<close>.\<close>

definition increment :: "real list \<Rightarrow> int \<Rightarrow> real list option" where
  "increment a i =
     (let n = int (length a)
      in if 0 \<le> i \<and> i < n then do {
           v \<leftarrow> float64_add (a ! nat i) 1;
           Some (a[nat i := v])
         }
         else if - n \<le> i \<and> i < 0 then do {
           v \<leftarrow> float64_add (a ! nat (i + n)) 1;
           Some (a[nat (i + n) := v])
         }
         else None)"

text \<open>
  \<open>a.sum()\<close>: the entries are added in \<open>float64\<close>. numpy chooses the order and the
  grouping of the additions itself; here they are added from left to right, starting from
  0. Lemma \<open>float64_sum_any_order\<close> below shows that on a vector of natural numbers with
  a sum below \<open>2^53\<close>, as the constructor sums, every order and grouping gives the same
  result.
\<close>

primrec np_sum_from :: "real \<Rightarrow> real list \<Rightarrow> real option" where
  "np_sum_from acc [] = Some acc"
| "np_sum_from acc (x # xs) = do {
     acc' \<leftarrow> float64_add acc x;
     np_sum_from acc' xs
   }"

definition np_sum :: "real list \<Rightarrow> real option" where
  "np_sum a = np_sum_from 0 a"

text \<open>\<open>a /= s\<close>: every entry is divided by \<open>s\<close> in \<open>float64\<close>.\<close>

primrec np_divide :: "real list \<Rightarrow> real \<Rightarrow> real list option" where
  "np_divide [] s = Some []"
| "np_divide (x # xs) s = do {
     y \<leftarrow> float64_divide x s;
     ys \<leftarrow> np_divide xs s;
     Some (y # ys)
   }"

definition action_body ::
  "int \<Rightarrow> int \<Rightarrow> int \<Rightarrow> int \<Rightarrow> int \<Rightarrow> int \<Rightarrow> int \<Rightarrow> table \<Rightarrow> table option" where
  "action_body row col pass_idx dest_idx fuel state action P = do {
     v \<leftarrow> transition row col pass_idx dest_idx fuel action;
     let new_state = encode (new_row v) (new_col v) (new_pass_idx v) dest_idx (new_fuel v);
     append_outcome P state action (1, new_state, reward v, done_flag v)
   }"

definition state_body ::
  "int \<Rightarrow> int \<Rightarrow> int \<Rightarrow> int \<Rightarrow> int \<Rightarrow> table \<times> real list \<Rightarrow> (table \<times> real list) option" where
  "state_body row col pass_idx dest_idx fuel env = (case env of (P, distrib) \<Rightarrow> do {
     let state = encode row col pass_idx dest_idx fuel;
     distrib' \<leftarrow> (if pass_idx < 4 \<and> pass_idx \<noteq> dest_idx \<and> fuel = max_fuel
                  then increment distrib state else Some distrib);
     P' \<leftarrow> for_each (action_body row col pass_idx dest_idx fuel state) (py_range num_actions) P;
     Some (P', distrib')
   })"

text \<open>The five nested loops, from the empty table and the zero vector.\<close>

definition loops :: "(table \<times> real list) option" where
  "loops =
     for_each (\<lambda>row.
       for_each (\<lambda>col.
         for_each (\<lambda>pass_idx.
           for_each (\<lambda>dest_idx.
             for_each (\<lambda>fuel. state_body row col pass_idx dest_idx fuel)
               (py_range (max_fuel + 1)))
             (py_range (int (length locs))))
           (py_range (int (length locs) + 1)))
         (py_range num_columns))
       (py_range num_rows)
       (empty_table, replicate (nat num_states) 0)"

text \<open>
  The constructor: the loops, then the division of the vector by its sum. It yields the
  table and the initial-state distribution handed to the discrete environment.
\<close>

definition init :: "(table \<times> real list) option" where
  "init = do {
     (P, distrib) \<leftarrow> loops;
     total \<leftarrow> np_sum distrib;
     distrib' \<leftarrow> np_divide distrib total;
     Some (P, distrib')
   }"

text \<open>\<open>P[state][action]\<close> and \<open>isd[state]\<close> of the constructed environment.\<close>

definition P_lookup :: "int \<Rightarrow> int \<Rightarrow> outcome list option" where
  "P_lookup state action = do {
     (P, distrib) \<leftarrow> init;
     entry \<leftarrow> P state;
     entry action
   }"


section \<open>Auxiliary notions for the proofs\<close>

text \<open>The structured states in the order in which the five loops visit them.\<close>

definition all_states :: "(int \<times> int \<times> int \<times> int \<times> int) list" where
  "all_states = List.product (py_range num_rows) (List.product (py_range num_columns)
     (List.product (py_range (int (length locs) + 1))
       (List.product (py_range (int (length locs))) (py_range (max_fuel + 1)))))"

text \<open>The outcome appended for a structured state and an action.\<close>

definition outcome_of :: "int \<times> int \<times> int \<times> int \<times> int \<Rightarrow> int \<Rightarrow> outcome option" where
  "outcome_of k action = (case k of (row, col, pass_idx, dest_idx, fuel) \<Rightarrow>
     map_option (\<lambda>v. (1, encode (new_row v) (new_col v) (new_pass_idx v) dest_idx (new_fuel v),
                        reward v, done_flag v))
       (transition row col pass_idx dest_idx fuel action))"

text \<open>The condition under which a state receives initial weight.\<close>

definition eligible :: "int \<times> int \<times> int \<times> int \<times> int \<Rightarrow> bool" where
  "eligible k = (case k of (row, col, pass_idx, dest_idx, fuel) \<Rightarrow>
     pass_idx < 4 \<and> pass_idx \<noteq> dest_idx \<and> fuel = max_fuel)"

definition encode_state :: "int \<times> int \<times> int \<times> int \<times> int \<Rightarrow> int" where
  "encode_state k = (case k of (row, col, pass_idx, dest_idx, fuel) \<Rightarrow>
     encode row col pass_idx dest_idx fuel)"

text \<open>
  The state of the loops after the structured states \<open>ks\<close> have been visited: every list
  of the table holds the outcomes of the visited states with that index, in order, and
  every entry of the vector counts the visited eligible states with that index, and the
  vector sums to the number of visited eligible states.
\<close>

definition table_inv ::
  "(int \<times> int \<times> int \<times> int \<times> int) list \<Rightarrow> table \<times> real list \<Rightarrow> bool" where
  "table_inv ks env = (case env of (P, distrib) \<Rightarrow>
     (\<forall>s. 0 \<le> s \<and> s < 5500 \<longrightarrow>
        (\<exists>entry. P s = Some entry \<and>
           (\<forall>a. 0 \<le> a \<and> a < 7 \<longrightarrow>
              entry a = Some (map (\<lambda>k. the (outcome_of k a))
                                 (filter (\<lambda>k. encode_state k = s) ks))))) \<and>
     length distrib = 5500 \<and>
     (\<forall>s. 0 \<le> s \<and> s < 5500 \<longrightarrow>
        distrib ! nat s =
          real (length (filter (\<lambda>k. encode_state k = s \<and> eligible k) ks))) \<and>
     sum_list distrib = real (length (filter eligible ks)))"

text \<open>The \<open>float64\<close> nearest to 1/300, the weight stored for an eligible state.\<close>

definition weight :: real where
  "weight = 7686143364045647 / 2 ^ 61"

text \<open>The keys of the table are the states and the actions of the ranges, and no others.\<close>

definition keys_inv :: "table \<Rightarrow> bool" where
  "keys_inv P =
     ((\<forall>s. \<not> (0 \<le> s \<and> s < 5500) \<longrightarrow> P s = None) \<and>
      (\<forall>s entry a. P s = Some entry \<and> \<not> (0 \<le> a \<and> a < 7) \<longrightarrow> entry a = None))"

section \<open>Properties of the codec\<close>

lemma radix_div: "0 \<le> b \<Longrightarrow> b < n \<Longrightarrow> (a * n + b) div n = (a::int)"
  by (simp add: div_pos_pos_trivial)

lemma radix_mod: "0 \<le> b \<Longrightarrow> b < n \<Longrightarrow> (a * n + b) mod n = (b::int)"
  by (simp add: mod_pos_pos_trivial)

lemma top_quotient:
  "0 \<le> (i::int) \<Longrightarrow> i < 5500 \<Longrightarrow>
     0 \<le> i div 11 div 4 div 5 div 5 \<and> i div 11 div 4 div 5 div 5 < 5"
  by (simp add: zdiv_zmult2_eq[symmetric] pos_imp_zdiv_nonneg_iff div_less_iff_less_mult)

lemma decode_encode:
  assumes "valid_state (r, c, p, d, f)"
  shows "decode (encode r c p d f) = Some (r, c, p, d, f)"
proof -
  from assms have b: "0 \<le> r" "r < 5" "0 \<le> c" "c < 5" "0 \<le> p" "p < 5"
    "0 \<le> d" "d < 4" "0 \<le> f" "f < 11"
    by (simp_all add: valid_state_def)
  have 1: "((((r * 5 + c) * 5 + p) * 4 + d) * 11 + f) div 11 = ((r * 5 + c) * 5 + p) * 4 + d"
    using b by (intro radix_div)
  have 2: "((((r * 5 + c) * 5 + p) * 4 + d) * 11 + f) mod 11 = f"
    using b by (intro radix_mod)
  have 3: "(((r * 5 + c) * 5 + p) * 4 + d) div 4 = (r * 5 + c) * 5 + p"
    using b by (intro radix_div)
  have 4: "(((r * 5 + c) * 5 + p) * 4 + d) mod 4 = d"
    using b by (intro radix_mod)
  have 5: "((r * 5 + c) * 5 + p) div 5 = r * 5 + c"
    using b by (intro radix_div)
  have 6: "((r * 5 + c) * 5 + p) mod 5 = p"
    using b by (intro radix_mod)
  have 7: "(r * 5 + c) div 5 = r"
    using b by (intro radix_div)
  have 8: "(r * 5 + c) mod 5 = c"
    using b by (intro radix_mod)
  show ?thesis
    unfolding decode_def encode_def Let_def 1 2 3 4 5 6 7 8
    using b by simp
qed

lemma encode_range:
  assumes "valid_state (r, c, p, d, f)"
  shows "0 \<le> encode r c p d f \<and> encode r c p d f < 5500"
  using assms unfolding valid_state_def encode_def by simp

lemma if_Some_eq: "(if b then Some x else None) = Some y \<Longrightarrow> b \<and> x = y"
  by (simp split: if_splits)

lemma encode_decode:
  assumes "decode i = Some (r, c, p, d, f)"
  shows "encode r c p d f = i"
proof -
  from assms have "(i div 11 div 4 div 5 div 5, i div 11 div 4 div 5 mod 5,
      i div 11 div 4 mod 5, i div 11 mod 4, i mod 11) = (r, c, p, d, f)"
    unfolding decode_def Let_def by (rule if_Some_eq[THEN conjunct2])
  then have e: "r = i div 11 div 4 div 5 div 5" "c = i div 11 div 4 div 5 mod 5"
    "p = i div 11 div 4 mod 5" "d = i div 11 mod 4" "f = i mod 11"
    by (simp_all only: prod.inject)
  show ?thesis unfolding encode_def e by (simp only: div_mult_mod_eq)
qed

lemma decode_total:
  assumes "0 \<le> i" "i < 5500"
  shows "\<exists>k. decode i = Some k \<and> valid_state k"
proof -
  let ?k = "(i div 11 div 4 div 5 div 5, i div 11 div 4 div 5 mod 5,
      i div 11 div 4 mod 5, i div 11 mod 4, i mod 11)"
  note q = top_quotient[OF assms]
  have "decode i = Some ?k"
    unfolding decode_def Let_def using q by (simp only: if_True simp_thms)
  moreover have "valid_state ?k"
    unfolding valid_state_def prod.case using q
    by (simp only: pos_mod_sign pos_mod_bound zero_less_numeral simp_thms)
  ultimately show ?thesis by blast
qed


section \<open>Rounding to double precision\<close>

lemma find_exponent_eq:
  assumes "e0 \<le> e" "e - e0 \<le> int n" "e0 < e \<longrightarrow> 2 powi e \<le> x" "x < 2 powi (e + 1)"
  shows "find_exponent n e0 x = e"
  using assms
proof (induction n arbitrary: e0)
  case 0
  then show ?case by simp
next
  case (Suc n)
  show ?case
  proof (cases "e0 = e")
    case True
    with Suc.prems(4) show ?thesis by simp
  next
    case False
    with Suc.prems(1) have lt: "e0 < e" by simp
    then have "(2::real) powi (e0 + 1) \<le> 2 powi e"
      by (intro power_int_increasing) simp_all
    with Suc.prems(3) lt have "2 powi (e0 + 1) \<le> x" by simp
    moreover have "find_exponent n (e0 + 1) x = e"
      using Suc.prems lt by (intro Suc.IH) auto
    ultimately show ?thesis by simp
  qed
qed

lemma float64_exponent_eq:
  assumes "- 1022 \<le> e" "e \<le> 1023" "- 1022 < e \<longrightarrow> 2 powi e \<le> \<bar>x\<bar>" "\<bar>x\<bar> < 2 powi (e + 1)"
  shows "float64_exponent x = e"
  unfolding float64_exponent_def using assms by (intro find_exponent_eq) simp_all

lemma round_even_of_int: "round_even (of_int k) = k"
  by (simp add: round_even_def)



lemma float64_exponent_zero: "float64_exponent 0 = - 1022"
  by (rule float64_exponent_eq) (simp_all add: zero_less_power_int)

lemma float64_round_zero: "float64_round 0 = Some 0"
  unfolding float64_round_def float64_exponent_zero Let_def
  by (simp add: round_even_def)

lemma float64_round_nat:
  assumes "n < 2 ^ 53"
  shows "float64_round (real n) = Some (real n)"
proof (cases "n = 0")
  case True
  then show ?thesis by (simp add: float64_round_zero)
next
  case False
  then have pos: "0 < n" by simp
  define k where "k = nat \<lfloor>log 2 (real n)\<rfloor>"
  have "0 \<le> log 2 (real n)" using pos by simp
  then have "\<lfloor>log (real 2) (real n)\<rfloor> = int k" by (simp add: k_def)
  with floor_log_nat_eq_powr_iff[of 2 n k] pos
  have lo: "2 ^ k \<le> n" and hi: "n < 2 ^ (k + 1)" by simp_all
  from lo assms have p: "(2::nat) ^ k < 2 ^ 53" by simp
  have k53: "k < 53" by (rule power_less_imp_less_exp[of 2, OF _ p]) simp
  define m where "m = 52 - k"
  have km: "int k - 52 = - int m" using k53 by (simp add: m_def)
  have rlo: "(2::real) ^ k \<le> real n"
    using lo by (metis of_nat_le_iff of_nat_numeral of_nat_power)
  have rhi: "real n < 2 ^ (k + 1)"
    using hi by (metis of_nat_less_iff of_nat_numeral of_nat_power)
  have e: "float64_exponent (real n) = int k"
  proof (rule float64_exponent_eq)
    show "- 1022 \<le> int k" by simp
    show "int k \<le> 1023" using k53 by simp
    show "- 1022 < int k \<longrightarrow> 2 powi int k \<le> \<bar>real n\<bar>" using rlo by simp
    have "int k + 1 = int (k + 1)" by simp
    then show "\<bar>real n\<bar> < 2 powi (int k + 1)" using rhi by (simp only: power_int_of_nat abs_of_nat)
  qed
  have u: "(2::real) powi (int k - 52) = 1 / 2 ^ m"
    unfolding km by (simp add: power_int_minus_divide)
  have q: "real n / (1 / 2 ^ m) = of_int (int (n * 2 ^ m))" by simp
  have y: "of_int (round_even (real n / (1 / 2 ^ m))) * (1 / 2 ^ m) = real n"
    unfolding q round_even_of_int by simp
  have "real n < 2 ^ 53" using assms by (metis of_nat_less_iff of_nat_numeral of_nat_power)
  also have "(2::real) ^ 53 \<le> 2 ^ 1024" by (intro power_increasing) simp_all
  finally have b: "\<bar>real n\<bar> < 2 ^ 1024" by simp
  show ?thesis
    unfolding float64_round_def e Let_def u y using b by (simp only: if_True)
qed

lemma float64_exponent_weight: "float64_exponent (1 / 300) = - 9"
  by (rule float64_exponent_eq) simp_all

lemma float64_round_weight: "float64_round (1 / 300) = Some (7686143364045647 / 2 ^ 61)"
proof -
  have u: "(2::real) powi (- 9 - 52) = 1 / 2 ^ 61"
    by (simp add: inverse_eq_divide)
  have r: "round_even (1 / 300 / (1 / 2 ^ 61)) = 7686143364045647"
    by (simp add: round_even_def Let_def)
  have b: "\<bar>7686143364045647 / 2 ^ 61\<bar> < (2::real) ^ 1024"
    by simp
  have y: "real_of_int 7686143364045647 * (1 / 2 ^ 61) = 7686143364045647 / 2 ^ 61"
    by simp
  show ?thesis
    unfolding float64_round_def float64_exponent_weight Let_def u r y using b
    by (simp only: if_True)
qed

lemma Nats_real_nonneg:
  fixes x :: real
  assumes "x \<in> \<nat>"
  shows "0 \<le> x"
  using assms by (auto elim: Nats_cases)

lemma float64_round_Nats:
  assumes "x \<in> \<nat>" "x < 2 ^ 53"
  shows "float64_round x = Some x"
proof -
  from assms(1) obtain n where n: "x = real n" by (auto elim: Nats_cases)
  with assms(2) have "real n < 2 ^ 53" by simp
  then have "n < 2 ^ 53" by (metis of_nat_less_iff of_nat_numeral of_nat_power)
  from float64_round_nat[OF this] n show ?thesis by simp
qed

lemma float64_add_Nats:
  assumes "x \<in> \<nat>" "y \<in> \<nat>" "x + y < 2 ^ 53"
  shows "float64_add x y = Some (x + y)"
  unfolding float64_add_def using assms by (intro float64_round_Nats Nats_add)

lemma sum_list_Nats:
  fixes xs :: "real list"
  assumes "\<forall>x\<in>set xs. x \<in> \<nat>"
  shows "sum_list xs \<in> \<nat>"
  using assms by (induction xs) (simp_all add: Nats_add)

lemma float64_sum_exact:
  assumes "\<forall>x\<in>set (summands t). x \<in> \<nat>" "sum_list (summands t) < 2 ^ 53"
  shows "float64_sum t = Some (sum_list (summands t))"
  using assms
proof (induction t)
  case (Entry x)
  then show ?case by simp
next
  case (Add l r)
  from Add.prems(1) have pl: "\<forall>x\<in>set (summands l). x \<in> \<nat>"
    and pr: "\<forall>x\<in>set (summands r). x \<in> \<nat>"
    by simp_all
  have nl: "sum_list (summands l) \<in> \<nat>" "0 \<le> sum_list (summands l)"
    using sum_list_Nats[OF pl] by (simp_all add: Nats_real_nonneg)
  have nr: "sum_list (summands r) \<in> \<nat>" "0 \<le> sum_list (summands r)"
    using sum_list_Nats[OF pr] by (simp_all add: Nats_real_nonneg)
  from Add.prems(2) have s: "sum_list (summands l) + sum_list (summands r) < 2 ^ 53" by simp
  with nl nr have "sum_list (summands l) < 2 ^ 53" "sum_list (summands r) < 2 ^ 53" by linarith+
  with Add.IH pl pr have "float64_sum l = Some (sum_list (summands l))"
    "float64_sum r = Some (sum_list (summands r))"
    by blast+
  with float64_add_Nats[OF nl(1) nr(1) s] show ?case by simp
qed

lemma float64_sum_any_order:
  assumes "mset (summands t) = mset a" "\<forall>x\<in>set a. x \<in> \<nat>" "sum_list a < 2 ^ 53"
  shows "float64_sum t = Some (sum_list a)"
proof -
  from assms(1) have s: "sum_list (summands t) = sum_list a"
    by (metis sum_mset_sum_list)
  from assms(1) have "set (summands t) = set a" by (rule mset_eq_setD)
  with assms(2,3) s show ?thesis by (simp add: float64_sum_exact)
qed

lemma np_sum_from_exact:
  assumes "acc \<in> \<nat>" "\<forall>x\<in>set xs. x \<in> \<nat>" "acc + sum_list xs < 2 ^ 53"
  shows "np_sum_from acc xs = Some (acc + sum_list xs)"
  using assms
proof (induction xs arbitrary: acc)
  case Nil
  then show ?case by simp
next
  case (Cons x xs)
  from Cons.prems(2) have x: "x \<in> \<nat>" and xs: "\<forall>y\<in>set xs. y \<in> \<nat>" by simp_all
  from sum_list_Nats[OF xs] have "0 \<le> sum_list xs" by (rule Nats_real_nonneg)
  with Cons.prems(3) have "acc + x < 2 ^ 53" by simp
  from float64_add_Nats[OF Cons.prems(1) x this]
  have a: "float64_add acc x = Some (acc + x)" .
  have "np_sum_from (acc + x) xs = Some (acc + x + sum_list xs)"
    using Cons.prems x xs by (intro Cons.IH Nats_add) (simp_all add: add.assoc)
  with a show ?case by (simp add: add.assoc)
qed

lemma np_sum_exact:
  assumes "\<forall>x\<in>set a. x \<in> \<nat>" "sum_list a < 2 ^ 53"
  shows "np_sum a = Some (sum_list a)"
  unfolding np_sum_def using np_sum_from_exact[of 0 a] assms by simp

lemma np_divide_weights:
  assumes "\<forall>x\<in>set a. x = 0 \<or> x = 1"
  shows "np_divide a 300 = Some (map (\<lambda>x. x * weight) a)"
  using assms
proof (induction a)
  case Nil
  then show ?case by simp
next
  case (Cons x a)
  from Cons.prems have "x = 0 \<or> x = 1" by simp
  then have "float64_divide x 300 = Some (x * weight)"
    by (auto simp add: float64_divide_def float64_round_zero float64_round_weight weight_def)
  with Cons show ?case by simp
qed

section \<open>One transition, by cases\<close>

lemma small_int_cases:
  assumes "0 \<le> (a::int)" "a < 7"
  shows "a = 0 \<or> a = 1 \<or> a = 2 \<or> a = 3 \<or> a = 4 \<or> a = 5 \<or> a = 6"
  using assms by arith

lemma MAP_line:
  assumes "0 \<le> r" "r < 5"
  shows "\<exists>line. py_index MAP (1 + r) = Some line \<and> length line = 11"
proof -
  from assms have "r = 0 \<or> r = 1 \<or> r = 2 \<or> r = 3 \<or> r = 4" by arith
  then show ?thesis
    by (elim disjE) (simp_all add: py_index_def MAP_def)
qed

lemma desc_Some:
  assumes "0 \<le> r" "r < 5" "0 \<le> j" "j < 11"
  shows "\<exists>ch. desc (1 + r) j = Some ch"
proof -
  from MAP_line[OF assms(1,2)] obtain line where
    l: "py_index MAP (1 + r) = Some line" "length line = 11" by blast
  then show ?thesis using assms(3,4) by (simp add: desc_def py_index_def)
qed

lemma east_test_Some:
  assumes "0 \<le> r" "r < 5" "0 \<le> c" "c < 5"
  shows "\<exists>e. east_test r c a = Some e \<and> (e \<longrightarrow> a = 2)"
proof -
  from assms have "0 \<le> 2 * c + 2" "2 * c + 2 < 11" by simp_all
  from desc_Some[OF assms(1,2) this] show ?thesis
    by (auto simp add: east_test_def)
qed

lemma west_test_Some:
  assumes "0 \<le> r" "r < 5" "0 \<le> c" "c < 5"
  shows "\<exists>w. west_test r c a = Some w \<and> (w \<longrightarrow> a = 3)"
proof -
  from assms have "0 \<le> 2 * c" "2 * c < 11" by simp_all
  from desc_Some[OF assms(1,2) this] show ?thesis
    by (auto simp add: west_test_def)
qed

lemma locs_index:
  assumes "0 \<le> j" "j < 4"
  shows "py_index locs j = Some (locs ! nat j)"
  using assms by (simp add: py_index_def locs_def)

lemma locs_nth_mem:
  assumes "0 \<le> j" "j < 4"
  shows "locs ! nat j \<in> set locs"
proof -
  from assms have "nat j < length locs" by (simp add: locs_def)
  then show ?thesis by (rule nth_mem)
qed

lemma pickup_test_eq:
  assumes "0 \<le> p" "p < 5"
  shows "pickup_test loc p = Some (p < 4 \<and> loc = locs ! nat p)"
  using assms by (auto simp add: pickup_test_def locs_index)

lemma list_index_locs:
  assumes "loc \<in> set locs"
  shows "\<exists>j. list_index locs loc = Some j \<and> 0 \<le> j \<and> j < 4 \<and> locs ! nat j = loc"
  using assms by (auto simp add: locs_def)

lemma transition_cases [consumes 3, case_names move blocked pickup no_pickup delivered
    dropped no_dropoff refilled no_refill]:
  assumes "valid_state (r, c, p, d, f)" "0 \<le> a" "a < 7"
  obtains
    (move) nr nc where "a = 0 \<and> nr = r + 1 \<and> r < 4 \<and> nc = c \<or> a = 1 \<and> nr = r - 1 \<and> 0 < r \<and> nc = c \<or>
       a = 2 \<and> nc = c + 1 \<and> c < 4 \<and> nr = r \<or> a = 3 \<and> nc = c - 1 \<and> 0 < c \<and> nr = r"
      "transition r c p d f a = Some \<lparr>new_row = nr, new_col = nc, new_pass_idx = p,
         new_fuel = max 0 (f - 1), reward = (if f = 0 then - 10 else - 1),
         done_flag = False, moved = True\<rparr>"
  | (blocked) "a = 0 \<or> a = 1 \<or> a = 2 \<or> a = 3"
      "a = 0 \<longrightarrow> r = 4" "a = 1 \<longrightarrow> r = 0"
      "transition r c p d f a = Some \<lparr>new_row = r, new_col = c, new_pass_idx = p,
         new_fuel = f, reward = - 1, done_flag = False, moved = False\<rparr>"
  | (pickup) "a = 4" "p < 4" "(r, c) = locs ! nat p"
      "transition r c p d f a = Some \<lparr>new_row = r, new_col = c, new_pass_idx = 4,
         new_fuel = f, reward = - 1, done_flag = False, moved = False\<rparr>"
  | (no_pickup) "a = 4" "\<not> (p < 4 \<and> (r, c) = locs ! nat p)"
      "transition r c p d f a = Some \<lparr>new_row = r, new_col = c, new_pass_idx = p,
         new_fuel = f, reward = - 10, done_flag = False, moved = False\<rparr>"
  | (delivered) "a = 5" "p = 4" "(r, c) = locs ! nat d"
      "transition r c p d f a = Some \<lparr>new_row = r, new_col = c, new_pass_idx = d,
         new_fuel = f, reward = 20, done_flag = True, moved = False\<rparr>"
  | (dropped) j where "a = 5" "p = 4" "(r, c) \<noteq> locs ! nat d" "0 \<le> j" "j < 4"
      "locs ! nat j = (r, c)"
      "transition r c p d f a = Some \<lparr>new_row = r, new_col = c, new_pass_idx = j,
         new_fuel = f, reward = - 1, done_flag = False, moved = False\<rparr>"
  | (no_dropoff) "a = 5" "p \<noteq> 4 \<or> (r, c) \<notin> set locs"
      "transition r c p d f a = Some \<lparr>new_row = r, new_col = c, new_pass_idx = p,
         new_fuel = f, reward = - 10, done_flag = False, moved = False\<rparr>"
  | (refilled) "a = 6" "(r, c) = fuel_station"
      "transition r c p d f a = Some \<lparr>new_row = r, new_col = c, new_pass_idx = p,
         new_fuel = 10, reward = - 1, done_flag = False, moved = False\<rparr>"
  | (no_refill) "a = 6" "(r, c) \<noteq> fuel_station"
      "transition r c p d f a = Some \<lparr>new_row = r, new_col = c, new_pass_idx = p,
         new_fuel = f, reward = - 10, done_flag = False, moved = False\<rparr>"
proof -
  from assms(1) have b: "0 \<le> r" "r < 5" "0 \<le> c" "c < 5" "0 \<le> p" "p < 5"
    "0 \<le> d" "d < 4" "0 \<le> f" "f < 11"
    by (simp_all add: valid_state_def)
  obtain e where e: "east_test r c a = Some e" "e \<longrightarrow> a = 2"
    using east_test_Some[OF b(1-4)] by blast
  obtain w where w: "west_test r c a = Some w" "w \<longrightarrow> a = 3"
    using west_test_Some[OF b(1-4)] by blast
  note defs = transition_def vertical_def horizontal_and_rest_def consume_fuel_def
    max_row_def max_col_def num_rows_def num_columns_def Let_def
  from small_int_cases[OF assms(2,3)] show thesis
  proof (elim disjE)
    assume a: "a = 0"
    with e w have t: "transition r c p d f a = Some (if r \<noteq> 4 then
        \<lparr>new_row = r + 1, new_col = c, new_pass_idx = p,
         new_fuel = max 0 (f - 1), reward = (if f = 0 then - 10 else - 1),
         done_flag = False, moved = True\<rparr> else \<lparr>new_row = r, new_col = c, new_pass_idx = p,
         new_fuel = f, reward = - 1, done_flag = False, moved = False\<rparr>)"
      using b by (auto simp add: defs)
    show thesis
    proof (cases "r = 4")
      case True with t a show thesis by (intro blocked) simp_all
    next
      case False with t a b show thesis by (intro move[of "r + 1" c]) simp_all
    qed
  next
    assume a: "a = 1"
    with e w have t: "transition r c p d f a = Some (if r \<noteq> 0 then
        \<lparr>new_row = r - 1, new_col = c, new_pass_idx = p,
         new_fuel = max 0 (f - 1), reward = (if f = 0 then - 10 else - 1),
         done_flag = False, moved = True\<rparr> else \<lparr>new_row = r, new_col = c, new_pass_idx = p,
         new_fuel = f, reward = - 1, done_flag = False, moved = False\<rparr>)"
      using b by (auto simp add: defs)
    show thesis
    proof (cases "r = 0")
      case True with t a show thesis by (intro blocked) simp_all
    next
      case False with t a b show thesis by (intro move[of "r - 1" c]) simp_all
    qed
  next
    assume a: "a = 2"
    with e w have t: "transition r c p d f a = Some (if e \<and> c \<noteq> 4 then
        \<lparr>new_row = r, new_col = c + 1, new_pass_idx = p,
         new_fuel = max 0 (f - 1), reward = (if f = 0 then - 10 else - 1),
         done_flag = False, moved = True\<rparr> else \<lparr>new_row = r, new_col = c, new_pass_idx = p,
         new_fuel = f, reward = - 1, done_flag = False, moved = False\<rparr>)"
      using b by (auto simp add: defs)
    show thesis
    proof (cases "e \<and> c \<noteq> 4")
      case False with t a show thesis by (intro blocked) simp_all
    next
      case True with t a b show thesis by (intro move[of r "c + 1"]) simp_all
    qed
  next
    assume a: "a = 3"
    with e w have t: "transition r c p d f a = Some (if w \<and> c \<noteq> 0 then
        \<lparr>new_row = r, new_col = c - 1, new_pass_idx = p,
         new_fuel = max 0 (f - 1), reward = (if f = 0 then - 10 else - 1),
         done_flag = False, moved = True\<rparr> else \<lparr>new_row = r, new_col = c, new_pass_idx = p,
         new_fuel = f, reward = - 1, done_flag = False, moved = False\<rparr>)"
      using b by (auto simp add: defs)
    show thesis
    proof (cases "w \<and> c \<noteq> 0")
      case False with t a show thesis by (intro blocked) simp_all
    next
      case True with t a b show thesis by (intro move[of r "c - 1"]) simp_all
    qed
  next
    assume a: "a = 4"
    with e w have t: "transition r c p d f a = Some (if p < 4 \<and> (r, c) = locs ! nat p then
        \<lparr>new_row = r, new_col = c, new_pass_idx = 4,
         new_fuel = f, reward = - 1, done_flag = False, moved = False\<rparr>
        else \<lparr>new_row = r, new_col = c, new_pass_idx = p,
         new_fuel = f, reward = - 10, done_flag = False, moved = False\<rparr>)"
      using b by (auto simp add: defs pickup_def pickup_test_eq)
    show thesis
    proof (cases "p < 4 \<and> (r, c) = locs ! nat p")
      case False with t a show thesis by (intro no_pickup) simp_all
    next
      case True with t a show thesis by (intro pickup) simp_all
    qed
  next
    assume a: "a = 5"
    show thesis
    proof (cases "p = 4 \<and> (r, c) \<in> set locs")
      case False
      with a e w b have "transition r c p d f a = Some \<lparr>new_row = r, new_col = c,
         new_pass_idx = p, new_fuel = f, reward = - 10, done_flag = False, moved = False\<rparr>"
        using locs_nth_mem[of d] by (auto simp add: defs dropoff_def locs_index)
      with False a show thesis by (intro no_dropoff) auto
    next
      case True
      then obtain j where j: "list_index locs (r, c) = Some j" "0 \<le> j" "j < 4"
        "locs ! nat j = (r, c)"
        using list_index_locs by blast
      show thesis
      proof (cases "(r, c) = locs ! nat d")
        case eq: True
        with True a e w b have "transition r c p d f a = Some \<lparr>new_row = r, new_col = c,
           new_pass_idx = d, new_fuel = f, reward = 20, done_flag = True, moved = False\<rparr>"
          by (simp add: defs dropoff_def locs_index)
        with True eq a show thesis by (intro delivered) simp_all
      next
        case ne: False
        with True a e w b j have "transition r c p d f a = Some \<lparr>new_row = r, new_col = c,
           new_pass_idx = j, new_fuel = f, reward = - 1, done_flag = False, moved = False\<rparr>"
          by (simp add: defs dropoff_def locs_index)
        with True ne a j show thesis by (intro dropped[of j]) simp_all
      qed
    qed
  next
    assume a: "a = 6"
    with e w have t: "transition r c p d f a = Some (if (r, c) = fuel_station then
        \<lparr>new_row = r, new_col = c, new_pass_idx = p,
         new_fuel = 10, reward = - 1, done_flag = False, moved = False\<rparr>
        else \<lparr>new_row = r, new_col = c, new_pass_idx = p,
         new_fuel = f, reward = - 10, done_flag = False, moved = False\<rparr>)"
      using b by (auto simp add: defs refill_def)
    show thesis
    proof (cases "(r, c) = fuel_station")
      case False with t a show thesis by (intro no_refill) simp_all
    next
      case True with t a show thesis by (intro refilled) simp_all
    qed
  qed
qed

section \<open>The loops as one traversal\<close>

lemma for_each_append:
  "for_each body (xs @ ys) s =
     (case for_each body xs s of None \<Rightarrow> None | Some s' \<Rightarrow> for_each body ys s')"
  by (induction xs arbitrary: s) (simp_all split: option.splits)

lemma for_each_map: "for_each body (map g xs) s = for_each (\<lambda>x. body (g x)) xs s"
  by (induction xs arbitrary: s) (simp_all split: option.splits)

lemma for_each_nested:
  "for_each (\<lambda>x. for_each (body x) ys) xs s =
     for_each (\<lambda>(x, y). body x y) (List.product xs ys) s"
  by (induction xs arbitrary: s) (simp_all add: for_each_append for_each_map split: option.splits)

lemma for_each_nested_fun:
  "for_each (\<lambda>x. for_each (body x) ys) xs =
     for_each (\<lambda>(x, y). body x y) (List.product xs ys)"
  by (rule ext) (rule for_each_nested)

lemma loops_flat:
  "loops = for_each (\<lambda>(r, c, p, d, f). state_body r c p d f) all_states
     (empty_table, replicate (nat num_states) 0)"
proof -
  let ?F = "py_range (max_fuel + 1)" and ?D = "py_range (int (length locs))"
  let ?P = "py_range (int (length locs) + 1)" and ?C = "py_range num_columns"
  have 1: "\<And>r c p. for_each (\<lambda>d. for_each (\<lambda>f. state_body r c p d f) ?F) ?D =
      for_each (\<lambda>(d, f). state_body r c p d f) (List.product ?D ?F)"
    by (rule for_each_nested_fun)
  have 2: "\<And>r c. for_each (\<lambda>p. for_each (\<lambda>(d, f). state_body r c p d f)
         (List.product ?D ?F)) ?P =
      for_each (\<lambda>(p, d, f). state_body r c p d f) (List.product ?P (List.product ?D ?F))"
    by (rule for_each_nested_fun)
  have 3: "\<And>r. for_each (\<lambda>c. for_each (\<lambda>(p, d, f). state_body r c p d f)
         (List.product ?P (List.product ?D ?F))) ?C =
      for_each (\<lambda>(c, p, d, f). state_body r c p d f)
        (List.product ?C (List.product ?P (List.product ?D ?F)))"
    by (rule for_each_nested_fun)
  have 4: "for_each (\<lambda>r. for_each (\<lambda>(c, p, d, f). state_body r c p d f)
         (List.product ?C (List.product ?P (List.product ?D ?F)))) (py_range num_rows) =
      for_each (\<lambda>(r, c, p, d, f). state_body r c p d f) all_states"
    unfolding all_states_def by (rule for_each_nested_fun)
  show ?thesis unfolding loops_def 1 2 3 4 ..
qed

section \<open>The invariant of the loops\<close>

lemma transition_Some:
  assumes "valid_state (r, c, p, d, f)" "0 \<le> a" "a < 7"
  shows "\<exists>v. transition r c p d f a = Some v"
  using assms by (cases rule: transition_cases) blast+

lemma outcome_of_Some:
  assumes "valid_state k" "0 \<le> a" "a < 7"
  shows "outcome_of k a \<noteq> None"
proof -
  obtain r c p d f where k: "k = (r, c, p, d, f)" by (cases k) blast
  from transition_Some[OF assms(1)[unfolded k] assms(2,3)] show ?thesis
    by (auto simp add: outcome_of_def k)
qed

lemma action_body_eq:
  "action_body r c p d f state a P =
     (case outcome_of (r, c, p, d, f) a of None \<Rightarrow> None
      | Some x \<Rightarrow> append_outcome P state a x)"
  by (cases "transition r c p d f a") (simp_all add: action_body_def outcome_of_def Let_def)

lemma action_body_fun:
  "action_body r c p d f state =
     (\<lambda>a P. case outcome_of (r, c, p, d, f) a of None \<Rightarrow> None
      | Some x \<Rightarrow> append_outcome P state a x)"
  by (intro ext) (rule action_body_eq)

lemma action_loop:
  assumes "P s0 = Some entry" "\<forall>a\<in>set as. entry a \<noteq> None \<and> g a \<noteq> None" "distinct as"
  shows "for_each (\<lambda>a P. case g a of None \<Rightarrow> None | Some x \<Rightarrow> append_outcome P s0 a x) as P =
     Some (P(s0 \<mapsto> (\<lambda>a. if a \<in> set as then Some (the (entry a) @ [the (g a)]) else entry a)))"
  using assms
proof (induction as arbitrary: P entry)
  case Nil
  then show ?case by (simp add: fun_upd_idem)
next
  case (Cons a as)
  from Cons.prems obtain l x where lx: "entry a = Some l" "g a = Some x" by auto
  let ?entry = "entry(a \<mapsto> l @ [x])"
  let ?P = "P(s0 \<mapsto> ?entry)"
  have step: "append_outcome P s0 a x = Some ?P"
    using Cons.prems(1) lx by (simp add: append_outcome_def)
  let ?body = "\<lambda>a P. case g a of None \<Rightarrow> None | Some x \<Rightarrow> append_outcome P s0 a x"
  let ?F1 = "\<lambda>b. if b \<in> set as then Some (the (?entry b) @ [the (g b)]) else ?entry b"
  let ?F2 = "\<lambda>b. if b \<in> set (a # as) then Some (the (entry b) @ [the (g b)]) else entry b"
  have A: "for_each ?body (a # as) P = for_each ?body as ?P"
    using step lx by simp
  have B: "for_each ?body as ?P = Some (?P(s0 \<mapsto> ?F1))"
    using Cons.prems by (intro Cons.IH) auto
  have C: "?F1 = ?F2"
    using Cons.prems(3) lx by (auto simp add: fun_eq_iff)
  have D: "?P(s0 \<mapsto> ?F2) = P(s0 \<mapsto> ?F2)"
    by (rule fun_upd_upd)
  show ?case unfolding A B C D ..
qed

lemma py_range_set: "set (py_range n) = {0..n - 1}"
  by (simp add: py_range_def)

lemma py_range_distinct: "distinct (py_range n)"
  by (simp add: py_range_def)

lemma increment_Some:
  assumes "0 \<le> s" "s < int (length a)" "a ! nat s = real n" "n + 1 < 2 ^ 53"
  shows "increment a s = Some (a[nat s := a ! nat s + 1])"
proof -
  have e: "real n + 1 = real (n + 1)" by simp
  have "float64_add (a ! nat s) 1 = Some (a ! nat s + 1)"
    unfolding float64_add_def assms(3) e by (rule float64_round_nat[OF assms(4)])
  with assms(1,2) show ?thesis by (simp add: increment_def)
qed


lemma sum_list_increment:
  fixes xs :: "real list"
  assumes "i < length xs"
  shows "sum_list (xs[i := xs ! i + 1]) = sum_list xs + 1"
  using assms
proof (induction xs arbitrary: i)
  case Nil
  then show ?case by simp
next
  case (Cons x xs)
  then show ?case by (cases i) simp_all
qed

lemma state_body_inv:
  assumes inv: "table_inv ks env" and v: "valid_state (r, c, p, d, f)"
    and small: "length ks < 2 ^ 52"
  shows "\<exists>env'. state_body r c p d f env = Some env' \<and>
     table_inv (ks @ [(r, c, p, d, f)]) env' \<and> (keys_inv (fst env) \<longrightarrow> keys_inv (fst env'))"
proof -
  obtain P distrib where env: "env = (P, distrib)" by (cases env)
  let ?k = "(r, c, p, d, f)"
  let ?s0 = "encode r c p d f"
  have s0: "0 \<le> ?s0" "?s0 < 5500" using encode_range[OF v] by blast+
  have es: "encode_state ?k = ?s0" by (simp add: encode_state_def)
  from inv have len: "length distrib = 5500"
    and tab: "\<And>s. 0 \<le> s \<Longrightarrow> s < 5500 \<Longrightarrow> \<exists>entry. P s = Some entry \<and>
           (\<forall>a. 0 \<le> a \<and> a < 7 \<longrightarrow>
              entry a = Some (map (\<lambda>k. the (outcome_of k a))
                                 (filter (\<lambda>k. encode_state k = s) ks)))"
    and total: "sum_list distrib = real (length (filter eligible ks))"
    and cnt: "\<And>s. 0 \<le> s \<Longrightarrow> s < 5500 \<Longrightarrow> distrib ! nat s =
          real (length (filter (\<lambda>k. encode_state k = s \<and> eligible k) ks))"
    by (simp_all add: table_inv_def env)
  from tab[OF s0] obtain entry where entry: "P ?s0 = Some entry"
    "\<And>a. 0 \<le> a \<Longrightarrow> a < 7 \<Longrightarrow> entry a = Some (map (\<lambda>k. the (outcome_of k a))
                                 (filter (\<lambda>k. encode_state k = ?s0) ks))"
    by blast
  let ?as = "py_range num_actions"
  have as: "set ?as = {0..6}" "distinct ?as"
    by (simp_all add: py_range_set py_range_distinct num_actions_def)
  let ?entry = "\<lambda>a. if a \<in> set ?as then Some (the (entry a) @ [the (outcome_of ?k a)])
                  else entry a"
  let ?P = "P(?s0 \<mapsto> ?entry)"
  have "\<forall>a\<in>set ?as. entry a \<noteq> None \<and> outcome_of ?k a \<noteq> None"
    using entry(2) outcome_of_Some[OF v] as(1) by simp
  from action_loop[of P ?s0 entry ?as "outcome_of ?k", OF entry(1) this as(2)]
  have loop: "for_each (action_body r c p d f ?s0) ?as P = Some ?P"
    unfolding action_body_fun .
  let ?distrib = "if eligible ?k then distrib[nat ?s0 := distrib ! nat ?s0 + 1] else distrib"
  have incr: "(if p < 4 \<and> p \<noteq> d \<and> f = max_fuel then increment distrib ?s0 else Some distrib)
      = Some ?distrib"
  proof (cases "p < 4 \<and> p \<noteq> d \<and> f = max_fuel")
    case True
    let ?n = "length (filter (\<lambda>k. encode_state k = ?s0 \<and> eligible k) ks)"
    have "?n < 2 ^ 52" by (rule le_less_trans[OF length_filter_le small])
    then have n: "?n + 1 < 2 ^ 53" by simp
    have inc: "increment distrib ?s0 = Some (distrib[nat ?s0 := distrib ! nat ?s0 + 1])"
      using s0 len by (intro increment_Some[OF _ _ cnt[OF s0] n]) simp_all
    from True have "eligible ?k" by (simp add: eligible_def)
    with True inc show ?thesis by simp
  next
    case False
    then have "\<not> eligible ?k" by (simp add: eligible_def)
    with False show ?thesis by auto
  qed
  have res: "state_body r c p d f env = Some (?P, ?distrib)"
    unfolding state_body_def env prod.case Let_def incr loop by simp
  have keys: "keys_inv (fst env) \<longrightarrow> keys_inv (fst (?P, ?distrib))"
  proof
    assume "keys_inv (fst env)"
    then have k1: "\<And>s. \<not> (0 \<le> s \<and> s < 5500) \<Longrightarrow> P s = None"
      and k2: "\<And>s entry a. P s = Some entry \<Longrightarrow> \<not> (0 \<le> a \<and> a < 7) \<Longrightarrow> entry a = None"
      unfolding keys_inv_def env fst_conv by blast+
    have "keys_inv ?P"
      unfolding keys_inv_def
    proof (intro conjI allI impI)
      fix s :: int assume "\<not> (0 \<le> s \<and> s < 5500)"
      with s0 k1[of s] show "?P s = None" by auto
    next
      fix s :: int and entry' :: "int \<rightharpoonup> outcome list" and a :: int
      assume h: "?P s = Some entry' \<and> \<not> (0 \<le> a \<and> a < 7)"
      then have na: "a \<notin> set ?as" using as(1) by auto
      show "entry' a = None"
      proof (cases "s = ?s0")
        case True
        with h have "entry' = ?entry" by simp
        with na k2[OF entry(1), of a] h show ?thesis by simp
      next
        case False
        with h k2[of s entry' a] show ?thesis by simp
      qed
    qed
    then show "keys_inv (fst (?P, ?distrib))" by simp
  qed
  have "table_inv (ks @ [?k]) (?P, ?distrib)"
    unfolding table_inv_def prod.case
  proof (intro conjI allI impI)
    show "length ?distrib = 5500" using len by simp
  next
    have "nat ?s0 < length distrib" using s0 len by simp
    from sum_list_increment[OF this] total
    show "sum_list ?distrib = real (length (filter eligible (ks @ [?k])))"
      by simp
  next
    fix s :: int assume s: "0 \<le> s \<and> s < 5500"
    show "?distrib ! nat s =
          real (length (filter (\<lambda>k. encode_state k = s \<and> eligible k) (ks @ [?k])))"
    proof (cases "s = ?s0")
      case True
      have "nat ?s0 < length distrib" using s0 len by simp
      with True s cnt[of s] show ?thesis by (simp add: es)
    next
      case False
      with s s0 have "nat s \<noteq> nat ?s0" by (simp add: nat_eq_iff)
      with False s cnt[of s] show ?thesis by (simp add: es)
    qed
  next
    fix s :: int assume s: "0 \<le> s \<and> s < 5500"
    show "\<exists>entry. ?P s = Some entry \<and>
           (\<forall>a. 0 \<le> a \<and> a < 7 \<longrightarrow>
              entry a = Some (map (\<lambda>k. the (outcome_of k a))
                                 (filter (\<lambda>k. encode_state k = s) (ks @ [?k]))))"
    proof (cases "s = ?s0")
      case True
      have "\<forall>a. 0 \<le> a \<and> a < 7 \<longrightarrow> ?entry a = Some (map (\<lambda>k. the (outcome_of k a))
                                 (filter (\<lambda>k. encode_state k = s) (ks @ [?k])))"
        using entry(2) as(1) True by (simp add: es)
      with True show ?thesis by simp
    next
      case False
      with tab[of s] s show ?thesis by (simp add: es)
    qed
  qed
  with res keys show ?thesis by blast
qed

lemma for_each_inv:
  assumes "table_inv ks env" "\<forall>k\<in>set ks'. valid_state k" "length ks + length ks' < 2 ^ 52"
  shows "\<exists>env'. for_each (\<lambda>(r, c, p, d, f). state_body r c p d f) ks' env = Some env' \<and>
           table_inv (ks @ ks') env' \<and> (keys_inv (fst env) \<longrightarrow> keys_inv (fst env'))"
  using assms
proof (induction ks' arbitrary: ks env)
  case Nil
  then show ?case by simp
next
  case (Cons k ks')
  obtain r c p d f where k: "k = (r, c, p, d, f)" by (cases k) blast
  from Cons.prems have v: "valid_state (r, c, p, d, f)" by (simp add: k)
  from Cons.prems(3) have small: "length ks < 2 ^ 52" by simp
  from state_body_inv[OF Cons.prems(1) v small] obtain env1 where
    e1: "state_body r c p d f env = Some env1" "table_inv (ks @ [k]) env1"
    "keys_inv (fst env) \<longrightarrow> keys_inv (fst env1)"
    unfolding k by blast
  from Cons.IH[OF e1(2)] Cons.prems(2,3) obtain env' where
    "for_each (\<lambda>(r, c, p, d, f). state_body r c p d f) ks' env1 = Some env'"
    "table_inv ((ks @ [k]) @ ks') env'"
    "keys_inv (fst env1) \<longrightarrow> keys_inv (fst env')"
    by auto
  with e1(1,3) show ?case by (simp add: k)
qed

lemma keys_inv_init: "keys_inv empty_table"
  by (auto simp add: keys_inv_def empty_table_def py_range_set num_states_def num_actions_def
      split: if_splits)

lemma table_inv_init: "table_inv [] (empty_table, replicate (nat num_states) 0)"
  by (auto simp add: table_inv_def empty_table_def py_range_set num_states_def num_actions_def
      sum_list_replicate)

section \<open>The constructed table and distribution\<close>

lemma all_states_set: "set all_states = {k. valid_state k}"
proof (rule set_eqI)
  fix k :: "int \<times> int \<times> int \<times> int \<times> int"
  obtain r c p d f where k: "k = (r, c, p, d, f)" by (cases k) blast
  have i: "\<And>x::int. x < 5 \<longleftrightarrow> x \<le> 4" "\<And>x::int. x < 4 \<longleftrightarrow> x \<le> 3"
    "\<And>x::int. x < 11 \<longleftrightarrow> x \<le> 10"
    by arith+
  show "k \<in> set all_states \<longleftrightarrow> k \<in> {k. valid_state k}"
    unfolding k all_states_def valid_state_def
    by (simp add: py_range_set locs_def num_rows_def num_columns_def max_fuel_def i)
qed

lemma all_states_distinct: "distinct all_states"
  unfolding all_states_def by (intro distinct_product py_range_distinct)

lemma filter_eq_singleton:
  assumes "distinct xs" "x \<in> set xs"
  shows "filter (\<lambda>k. k = x) xs = [x]"
  using assms
proof (induction xs)
  case Nil
  then show ?case by simp
next
  case (Cons y ys)
  show ?case
  proof (cases "y = x")
    case True
    with Cons.prems(1) have "filter (\<lambda>k. k = x) ys = []" by (auto simp add: filter_empty_conv)
    with True show ?thesis by simp
  next
    case False
    with Cons show ?thesis by simp
  qed
qed

lemma encode_state_eq_iff:
  assumes "valid_state k" "decode s = Some k'"
  shows "encode_state k = s \<longleftrightarrow> k = k'"
proof -
  obtain r c p d f where k: "k = (r, c, p, d, f)" by (cases k) blast
  obtain r' c' p' d' f' where k': "k' = (r', c', p', d', f')" by (cases k') blast
  from encode_decode[OF assms(2)[unfolded k']] have e: "encode_state k' = s"
    by (simp add: encode_state_def k')
  from decode_encode[OF assms(1)[unfolded k]] have d: "decode (encode_state k) = Some k"
    by (simp add: encode_state_def k)
  show ?thesis
  proof
    assume "encode_state k = s"
    with d have "decode s = Some k" by simp
    with assms(2) show "k = k'" by simp
  next
    assume "k = k'"
    with e show "encode_state k = s" by simp
  qed
qed

lemma filter_index:
  assumes "0 \<le> s" "s < 5500" "decode s = Some k"
  shows "filter (\<lambda>k'. encode_state k' = s) all_states = [k]"
proof -
  from decode_total[OF assms(1,2)] assms(3) have v: "valid_state k" by auto
  have "filter (\<lambda>k'. encode_state k' = s) all_states = filter (\<lambda>k'. k' = k) all_states"
    by (rule filter_cong[OF refl]) (simp add: all_states_set encode_state_eq_iff[OF _ assms(3)])
  also have "\<dots> = [k]"
    using all_states_distinct v by (intro filter_eq_singleton) (simp_all add: all_states_set)
  finally show ?thesis .
qed

lemma length_filter_product_snd:
  "length (filter (\<lambda>(x, y). Q y) (List.product xs ys)) = length xs * length (filter Q ys)"
  by (induction xs) (simp_all add: filter_map o_def)

lemma py_range_values:
  "py_range 4 = [0, 1, 2, 3]" "py_range 5 = [0, 1, 2, 3, 4]"
  "py_range 7 = [0, 1, 2, 3, 4, 5, 6]" "py_range 11 = [0, 1, 2, 3, 4, 5, 6, 7, 8, 9, 10]"
  by (simp_all add: py_range_def upto_rec1)

lemma eligible_count: "length (filter eligible all_states) = 300"
proof -
  let ?E = "\<lambda>(p, d, f). p < 4 \<and> p \<noteq> d \<and> f = max_fuel"
  have e: "eligible = (\<lambda>(r, y). (\<lambda>(c, z). ?E z) y)"
    by (auto simp add: eligible_def fun_eq_iff)
  have "length (filter ?E (List.product (py_range (int (length locs) + 1))
       (List.product (py_range (int (length locs))) (py_range (max_fuel + 1))))) = 12"
    by (simp add: py_range_values locs_def max_fuel_def)
  then show ?thesis
    unfolding e all_states_def length_filter_product_snd
    by (simp add: py_range_values num_rows_def num_columns_def)
qed


lemma bind_pair: "x = Some (a, b) \<Longrightarrow> (x \<bind> (\<lambda>(p, q). g p q)) = g a b"
  by simp


lemma init_eq:
  assumes "loops = Some (P, distrib)" "np_sum distrib = Some t" "np_divide distrib t = Some xs"
  shows "init = Some (P, xs)"
proof -
  have e: "init = np_sum distrib \<bind>
      (\<lambda>total. np_divide distrib total \<bind> (\<lambda>distrib'. Some (P, distrib')))"
    unfolding init_def by (rule bind_pair[OF assms(1)])
  show ?thesis by (subst e) (simp add: assms(2,3))
qed

lemma P_lookup_of_init:
  assumes "init = Some (P, distrib)"
  shows "P_lookup s a = P s \<bind> (\<lambda>entry. entry a)"
  unfolding P_lookup_def by (rule bind_pair[OF assms])


lemma all_states_length: "length all_states = 5500"
proof -
  have l: "int (length locs) = 4" by (simp add: locs_def)
  show ?thesis
    unfolding all_states_def length_product l num_rows_def num_columns_def max_fuel_def
    by (simp add: py_range_def)
qed

lemma loops_result:
  "\<exists>P distrib. loops = Some (P, distrib) \<and> table_inv all_states (P, distrib) \<and> keys_inv P"
proof -
  have v: "\<forall>k\<in>set all_states. valid_state k" by (simp add: all_states_set)
  have l: "length ([] :: (int \<times> int \<times> int \<times> int \<times> int) list) + length all_states < 2 ^ 52"
    by (simp add: all_states_length)
  from for_each_inv[OF table_inv_init v l] keys_inv_init show ?thesis
    unfolding loops_flat by auto
qed

lemma distrib_entry:
  assumes "table_inv all_states (P, distrib)" "0 \<le> s" "s < 5500" "decode s = Some k"
  shows "distrib ! nat s = (if eligible k then 1 else 0)"
proof -
  from assms(1-3) have cnt: "distrib ! nat s =
      real (length (filter (\<lambda>k. encode_state k = s \<and> eligible k) all_states))"
    by (simp add: table_inv_def)
  have "filter (\<lambda>k. encode_state k = s \<and> eligible k) all_states =
      filter eligible (filter (\<lambda>k. encode_state k = s) all_states)"
    by (simp add: conj_commute)
  also have "\<dots> = (if eligible k then [k] else [])"
    unfolding filter_index[OF assms(2-4)] by simp
  finally show ?thesis
    unfolding cnt by simp
qed

lemma distrib_bits:
  assumes "table_inv all_states (P, distrib)"
  shows "\<forall>x\<in>set distrib. x = 0 \<or> x = 1"
proof
  fix x assume "x \<in> set distrib"
  then obtain i where i: "i < length distrib" "x = distrib ! i"
    by (auto simp add: in_set_conv_nth)
  from assms have "length distrib = 5500" by (simp add: table_inv_def)
  with i(1) have r: "0 \<le> int i" "int i < 5500" by simp_all
  from decode_total[OF r] obtain k where "decode (int i) = Some k" by blast
  from distrib_entry[OF assms r this] i(2) show "x = 0 \<or> x = 1" by simp
qed

lemma init_result:
  "\<exists>P distrib. init = Some (P, map (\<lambda>x. x * weight) distrib) \<and>
     table_inv all_states (P, distrib) \<and> keys_inv P"
proof -
  from loops_result obtain P distrib where
    l: "loops = Some (P, distrib)" "table_inv all_states (P, distrib)" "keys_inv P" by blast
  note bits = distrib_bits[OF l(2)]
  from l(2) have total: "sum_list distrib = 300"
    by (simp add: table_inv_def eligible_count)
  from bits have nats: "\<forall>x\<in>set distrib. x \<in> \<nat>" by auto
  have "sum_list distrib < 2 ^ 53" unfolding total by simp
  from np_sum_exact[OF nats this] have s: "np_sum distrib = Some 300"
    unfolding total .
  from init_eq[OF l(1) s np_divide_weights[OF bits]] l(2,3) show ?thesis by blast
qed

lemma P_lookup_None:
  assumes "\<not> (0 \<le> s \<and> s < 5500 \<and> 0 \<le> a \<and> a < 7)"
  shows "P_lookup s a = None"
proof -
  from init_result obtain P distrib where
    l: "init = Some (P, map (\<lambda>x. x * weight) distrib)" "keys_inv P" by blast
  from l(2) have k1: "\<And>s. \<not> (0 \<le> s \<and> s < 5500) \<Longrightarrow> P s = None"
    and k2: "\<And>s entry a. P s = Some entry \<Longrightarrow> \<not> (0 \<le> a \<and> a < 7) \<Longrightarrow> entry a = None"
    unfolding keys_inv_def by blast+
  show ?thesis
    unfolding P_lookup_of_init[OF l(1)]
  proof (cases "P s")
    case None
    then show "P s \<bind> (\<lambda>entry. entry a) = None" by simp
  next
    case (Some entry)
    with k1[of s] have "0 \<le> s \<and> s < 5500" by auto
    with assms have "\<not> (0 \<le> a \<and> a < 7)" by simp
    from k2[OF Some this] Some show "P s \<bind> (\<lambda>entry. entry a) = None" by simp
  qed
qed

lemma P_lookup_eq:
  assumes "0 \<le> s" "s < 5500" "0 \<le> a" "a < 7"
  shows "\<exists>r c p d f v. decode s = Some (r, c, p, d, f) \<and> valid_state (r, c, p, d, f) \<and>
     transition r c p d f a = Some v \<and>
     P_lookup s a = Some [(1, encode (new_row v) (new_col v) (new_pass_idx v) d (new_fuel v),
                           reward v, done_flag v)]"
proof -
  from decode_total[OF assms(1,2)] obtain k where k: "decode s = Some k" "valid_state k"
    by blast
  obtain r c p d f where kk: "k = (r, c, p, d, f)" by (cases k) blast
  from transition_Some[OF k(2)[unfolded kk] assms(3,4)] obtain v where
    v: "transition r c p d f a = Some v" by blast
  from init_result obtain P distrib where
    l: "init = Some (P, map (\<lambda>x. x * weight) distrib)" "table_inv all_states (P, distrib)"
    by blast
  from l(2) assms obtain entry where e: "P s = Some entry"
    "entry a = Some (map (\<lambda>k. the (outcome_of k a))
                       (filter (\<lambda>k. encode_state k = s) all_states))"
    unfolding table_inv_def prod.case by blast
  have "entry a = Some [the (outcome_of k a)]"
    unfolding e(2) filter_index[OF assms(1,2) k(1)] by simp
  then have ea: "entry a = Some [(1, encode (new_row v) (new_col v) (new_pass_idx v) d
       (new_fuel v), reward v, done_flag v)]"
    by (simp add: outcome_of_def kk v)
  have "P_lookup s a = Some [(1, encode (new_row v) (new_col v) (new_pass_idx v) d
       (new_fuel v), reward v, done_flag v)]"
    unfolding P_lookup_of_init[OF l(1)] using e(1) ea by simp
  with k v show ?thesis unfolding kk by blast
qed




section \<open>Entries of the table\<close>

lemma transition_valid:
  assumes "valid_state (r, c, p, d, f)" "0 \<le> a" "a < 7" "transition r c p d f a = Some v"
  shows "valid_state (new_row v, new_col v, new_pass_idx v, d, new_fuel v)"
  using assms(1-3)
proof (cases rule: transition_cases)
  case (move nr nc)
  with assms show ?thesis by (auto simp add: valid_state_def)
next
  case (dropped j)
  with assms show ?thesis by (auto simp add: valid_state_def)
qed (use assms in \<open>auto simp add: valid_state_def\<close>)

lemma table_step:
  assumes "0 \<le> s" "s < 5500" "0 \<le> a" "a < 7" "decode s = Some (r, c, p, d, f)"
  obtains v where "valid_state (r, c, p, d, f)" "transition r c p d f a = Some v"
    "P_lookup s a = Some [(1, encode (new_row v) (new_col v) (new_pass_idx v) d (new_fuel v),
                           reward v, done_flag v)]"
    "decode (encode (new_row v) (new_col v) (new_pass_idx v) d (new_fuel v)) =
       Some (new_row v, new_col v, new_pass_idx v, d, new_fuel v)"
    "valid_state (new_row v, new_col v, new_pass_idx v, d, new_fuel v)"
proof -
  from P_lookup_eq[OF assms(1-4)] assms(5) obtain v where
    v: "valid_state (r, c, p, d, f)" "transition r c p d f a = Some v"
    "P_lookup s a = Some [(1, encode (new_row v) (new_col v) (new_pass_idx v) d (new_fuel v),
                           reward v, done_flag v)]"
    by auto
  from transition_valid[OF v(1) assms(3,4) v(2)]
  have nv: "valid_state (new_row v, new_col v, new_pass_idx v, d, new_fuel v)" .
  from that[OF v nv[THEN decode_encode] nv] show thesis .
qed

lemma pickup_position:
  assumes "pickup loc p v = Some v'"
  shows "new_row v' = new_row v \<and> new_col v' = new_col v"
  using assms by (auto simp add: pickup_def split: Option.bind_splits if_splits)

lemma dropoff_position:
  assumes "dropoff loc p d v = Some v'"
  shows "new_row v' = new_row v \<and> new_col v' = new_col v"
  using assms by (auto simp add: dropoff_def split: Option.bind_splits if_splits)

lemma refill_position: "new_row (refill loc v) = new_row v \<and> new_col (refill loc v) = new_col v"
  by (simp add: refill_def)

lemma horizontal_position:
  assumes "horizontal_and_rest r c p d a v = Some v'"
  shows "new_row v' = new_row v \<and>
     new_col v' = (if east_test r c a = Some True then min (c + 1) max_col
                   else if west_test r c a = Some True then max (c - 1) 0
                   else new_col v)"
proof -
  from assms obtain e where e: "east_test r c a = Some e"
    by (auto simp add: horizontal_and_rest_def split: Option.bind_splits)
  show ?thesis
  proof (cases e)
    case True
    with assms e show ?thesis by (auto simp add: horizontal_and_rest_def Let_def)
  next
    case False
    with assms e obtain w where w: "west_test r c a = Some w"
      by (auto simp add: horizontal_and_rest_def split: Option.bind_splits)
    show ?thesis
    proof (cases w)
      case True
      with assms e w False show ?thesis by (auto simp add: horizontal_and_rest_def Let_def)
    next
      case nw: False
      with assms e w False have
        "(if a = 4 then pickup (r, c) p v else if a = 5 then dropoff (r, c) p d v
          else if a = 6 then Some (refill (r, c) v) else Some v) = Some v'"
        by (simp add: horizontal_and_rest_def)
      then have "new_row v' = new_row v \<and> new_col v' = new_col v"
        using pickup_position[of "(r, c)" p v v'] dropoff_position[of "(r, c)" p d v v']
          refill_position[of "(r, c)" v]
        by (auto split: if_splits)
      with e w False nw show ?thesis by simp
    qed
  qed
qed

lemma vertical_position:
  "new_row (vertical r a v) =
     (if a = 0 then min (r + 1) max_row else if a = 1 then max (r - 1) 0 else new_row v) \<and>
   new_col (vertical r a v) = new_col v"
  by (simp add: vertical_def Let_def)

lemma consume_fuel_position:
  "new_row (consume_fuel f v) = new_row v \<and> new_col (consume_fuel f v) = new_col v"
  by (simp add: consume_fuel_def Let_def)

lemma transition_position:
  assumes "transition r c p d f a = Some v"
  shows "new_row v = (if a = 0 then min (r + 1) max_row else if a = 1 then max (r - 1) 0 else r)
     \<and> new_col v = (if east_test r c a = Some True then min (c + 1) max_col
                   else if west_test r c a = Some True then max (c - 1) 0
                   else c)"
proof -
  let ?v0 = "\<lparr>new_row = r, new_col = c, new_pass_idx = p, new_fuel = f,
               reward = - 1, done_flag = False, moved = False\<rparr>"
  from assms obtain v2 where v2: "horizontal_and_rest r c p d a (vertical r a ?v0) = Some v2"
    "v = consume_fuel f v2"
    by (auto simp add: transition_def Let_def split: Option.bind_splits)
  from horizontal_position[OF v2(1)] show ?thesis
    unfolding v2(2) by (simp add: consume_fuel_position vertical_position)
qed

lemma transition_position_fuel:
  assumes "transition r c p d f a = Some v" "transition r c p d f2 a = Some v2"
  shows "new_row v = new_row v2 \<and> new_col v = new_col v2"
  using transition_position[OF assms(1)] transition_position[OF assms(2)] by simp

lemma P_lookup_at:
  assumes "valid_state (r, c, p, d, f)" "0 \<le> a" "a < 7" "transition r c p d f a = Some v"
  shows "P_lookup (encode r c p d f) a =
     Some [(1, encode (new_row v) (new_col v) (new_pass_idx v) d (new_fuel v),
            reward v, done_flag v)]"
proof -
  from encode_range[OF assms(1)] have "0 \<le> encode r c p d f" "encode r c p d f < 5500"
    by blast+
  from P_lookup_eq[OF this assms(2,3)] decode_encode[OF assms(1)] assms(4)
  show ?thesis by auto
qed

lemma entry_187_south: "P_lookup 187 0 = Some [(1, 1287, - 10, False)]"
proof -
  have t: "transition 0 0 4 1 0 0 = Some \<lparr>new_row = 1, new_col = 0, new_pass_idx = 4,
      new_fuel = 0, reward = - 10, done_flag = False, moved = True\<rparr>"
    by (simp add: transition_def vertical_def horizontal_and_rest_def east_test_def
        west_test_def consume_fuel_def max_row_def num_rows_def Let_def)
  have "valid_state (0, 0, 4, 1, 0)" by (simp add: valid_state_def)
  from P_lookup_at[OF this _ _ t] show ?thesis by (simp add: encode_def)
qed

lemma entry_21_west: "P_lookup 21 3 = Some [(1, 21, - 1, False)]"
proof -
  have "desc 1 0 = Some CHR ''|''"
    by (simp add: desc_def py_index_def MAP_def)
  then have t: "transition 0 0 0 1 10 3 = Some \<lparr>new_row = 0, new_col = 0, new_pass_idx = 0,
      new_fuel = 10, reward = - 1, done_flag = False, moved = False\<rparr>"
    by (simp add: transition_def vertical_def horizontal_and_rest_def east_test_def
        west_test_def consume_fuel_def Let_def)
  have "valid_state (0, 0, 0, 1, 10)" by (simp add: valid_state_def)
  from P_lookup_at[OF this _ _ t] show ?thesis by (simp add: encode_def)
qed

section \<open>The claims\<close>

text \<open>
  C1. \<open>encode\<close> and \<open>decode\<close> form a bijection between the structured states with
  components in range and the packed indices in \<open>[0, 5500)\<close>: a valid state is encoded
  into the range and decoded back to itself, and every index of the range decodes (the
  assertion holds) to a valid state that encodes back to the index.
\<close>

theorem C1_codec_bijection:
  "(valid_state (r, c, p, d, f) \<longrightarrow>
      0 \<le> encode r c p d f \<and> encode r c p d f < 5500 \<and>
      decode (encode r c p d f) = Some (r, c, p, d, f)) \<and>
   (0 \<le> i \<and> i < 5500 \<longrightarrow>
      (\<exists>r' c' p' d' f'. decode i = Some (r', c', p', d', f') \<and>
         valid_state (r', c', p', d', f') \<and> encode r' c' p' d' f' = i))"
proof (intro conjI impI)
  assume v: "valid_state (r, c, p, d, f)"
  from encode_range[OF v] show "0 \<le> encode r c p d f" "encode r c p d f < 5500"
    by blast+
  from decode_encode[OF v] show "decode (encode r c p d f) = Some (r, c, p, d, f)" .
next
  assume "0 \<le> i \<and> i < 5500"
  then obtain k where k: "decode i = Some k" "valid_state k"
    using decode_total by blast
  obtain r' c' p' d' f' where e: "k = (r', c', p', d', f')"
    by (cases k) blast
  from k e encode_decode[of i r' c' p' d' f']
  show "\<exists>r' c' p' d' f'. decode i = Some (r', c', p', d', f') \<and>
         valid_state (r', c', p', d', f') \<and> encode r' c' p' d' f' = i"
    by blast
qed

theorem C1_codec_bijection_witness:
  "valid_state (0, 0, 0, 1, 10) \<and> encode 0 0 0 1 10 = 21 \<and>
   decode 21 = Some (0, 0, 0, 1, 10) \<and>
   (0::int) \<le> 5499 \<and> (5499::int) < 5500 \<and> decode 5499 = Some (4, 4, 4, 3, 10) \<and>
   encode 4 4 4 3 10 = 5499"
  using C1_codec_bijection[of 0 0 0 1 10 5499]
  by (simp add: valid_state_def encode_def decode_def)

text \<open>
  C2. The constructor returns, and in the table it returns every state index in
  \<open>[0, 5500)\<close> and every action in \<open>{0,...,6}\<close> has a list of exactly one outcome, whose
  probability is 1. No other state and no other action is a key of the table.
\<close>

theorem C2_table_complete:
  "(0 \<le> s \<and> s < 5500 \<and> 0 \<le> a \<and> a < 7 \<longrightarrow>
      (\<exists>s' rw dn. P_lookup s a = Some [(1, s', rw, dn)])) \<and>
   (\<not> (0 \<le> s \<and> s < 5500 \<and> 0 \<le> a \<and> a < 7) \<longrightarrow> P_lookup s a = None)"
proof (intro conjI impI)
  assume "0 \<le> s \<and> s < 5500 \<and> 0 \<le> a \<and> a < 7"
  then have "0 \<le> s" "s < 5500" "0 \<le> a" "a < 7" by blast+
  from P_lookup_eq[OF this] show "\<exists>s' rw dn. P_lookup s a = Some [(1, s', rw, dn)]"
    by blast
next
  assume "\<not> (0 \<le> s \<and> s < 5500 \<and> 0 \<le> a \<and> a < 7)"
  then show "P_lookup s a = None" by (rule P_lookup_None)
qed

theorem C2_table_complete_witness:
  "(\<exists>s' rw dn. P_lookup 21 4 = Some [(1, s', rw, dn)]) \<and>
   P_lookup 5500 0 = None \<and> P_lookup 21 7 = None \<and> P_lookup (- 1) 0 = None"
  using C2_table_complete[of 21 4] C2_table_complete[of 5500 0] C2_table_complete[of 21 7]
    C2_table_complete[of "- 1" 0]
  by simp

text \<open>
  C3. For every entry of the table, \<open>done\<close> is true exactly when the action is 5, the
  passenger is in the taxi and the taxi stands on the location of the destination; and the
  reward is 20 in exactly that case.
\<close>

theorem C3_terminal:
  assumes "0 \<le> s" "s < 5500" "0 \<le> a" "a < 7" "decode s = Some (r, c, p, d, f)"
  shows "\<exists>s' rw dn. P_lookup s a = Some [(1, s', rw, dn)] \<and>
     (dn \<longleftrightarrow> a = 5 \<and> p = 4 \<and> py_index locs d = Some (r, c)) \<and>
     (rw = 20 \<longleftrightarrow> a = 5 \<and> p = 4 \<and> py_index locs d = Some (r, c))"
proof -
  from assms obtain v where v: "valid_state (r, c, p, d, f)"
    "transition r c p d f a = Some v"
    "P_lookup s a = Some [(1, encode (new_row v) (new_col v) (new_pass_idx v) d (new_fuel v),
                           reward v, done_flag v)]"
    "decode (encode (new_row v) (new_col v) (new_pass_idx v) d (new_fuel v)) =
       Some (new_row v, new_col v, new_pass_idx v, d, new_fuel v)"
    "valid_state (new_row v, new_col v, new_pass_idx v, d, new_fuel v)"
    by (rule table_step)
  from v(1) have d: "py_index locs d = Some (locs ! nat d)"
    by (intro locs_index) (simp_all add: valid_state_def)
  have "(done_flag v \<longleftrightarrow> a = 5 \<and> p = 4 \<and> py_index locs d = Some (r, c)) \<and>
     (reward v = 20 \<longleftrightarrow> a = 5 \<and> p = 4 \<and> py_index locs d = Some (r, c))"
    using v(1) assms(3,4)
  proof (cases rule: transition_cases)
    case (move nr nc)
    with v(2) show ?thesis by (auto split: if_splits)
  next
    case (dropped j)
    with v(2) d show ?thesis by auto
  next
    case no_dropoff
    with v(2) d locs_nth_mem[of d] v(1) show ?thesis by (auto simp add: valid_state_def)
  qed (use v(2) d in auto)
  with v(3) show ?thesis by blast
qed

theorem C3_terminal_witness:
  "decode 1077 = Some (0, 4, 4, 1, 10) \<and> py_index locs 1 = Some (0, 4) \<and>
   (\<exists>s'. P_lookup 1077 5 = Some [(1, s', 20, True)])"
proof -
  have d: "decode 1077 = Some (0, 4, 4, 1, 10)" by (simp add: decode_def)
  have l: "py_index locs 1 = Some (0, 4)" by (simp add: py_index_def locs_def)
  from C3_terminal[of 1077 5 0 4 4 1 10, OF _ _ _ _ d] l
  have "\<exists>s'. P_lookup 1077 5 = Some [(1, s', 20, True)]" by auto
  with d l show ?thesis by blast
qed

text \<open>
  C4. For a movement action (0 to 3) whose successor has another taxi position than the
  source state: with positive fuel the successor has one unit less and the reward is -1;
  with fuel 0 the reward is -10 and the successor's fuel is 0. The move is not blocked by
  the empty tank: the successor's position is the same whatever the fuel of the source
  state is.
\<close>

theorem C4_fuel_consumption:
  assumes "0 \<le> s" "s < 5500" "0 \<le> a" "a < 4" "decode s = Some (r, c, p, d, f)"
  shows "\<exists>s' rw dn r' c' p' d' f'.
     P_lookup s a = Some [(1, s', rw, dn)] \<and> decode s' = Some (r', c', p', d', f') \<and>
     ((r', c') \<noteq> (r, c) \<longrightarrow>
        (0 < f \<longrightarrow> f' = f - 1 \<and> rw = - 1) \<and> (f = 0 \<longrightarrow> rw = - 10 \<and> f' = 0)) \<and>
     (\<forall>f0. 0 \<le> f0 \<and> f0 < 11 \<longrightarrow>
        (\<exists>s0 rw0 dn0 p0 d0 f0'. P_lookup (encode r c p d f0) a = Some [(1, s0, rw0, dn0)] \<and>
           decode s0 = Some (r', c', p0, d0, f0')))"
proof -
  from assms(4) have a7: "a < 7" by simp
  from assms(1-3) a7 assms(5) obtain v where v: "valid_state (r, c, p, d, f)"
    "transition r c p d f a = Some v"
    "P_lookup s a = Some [(1, encode (new_row v) (new_col v) (new_pass_idx v) d (new_fuel v),
                           reward v, done_flag v)]"
    "decode (encode (new_row v) (new_col v) (new_pass_idx v) d (new_fuel v)) =
       Some (new_row v, new_col v, new_pass_idx v, d, new_fuel v)"
    "valid_state (new_row v, new_col v, new_pass_idx v, d, new_fuel v)"
    by (rule table_step)
  have fuel: "(new_row v, new_col v) \<noteq> (r, c) \<longrightarrow>
        (0 < f \<longrightarrow> new_fuel v = f - 1 \<and> reward v = - 1) \<and>
        (f = 0 \<longrightarrow> reward v = - 10 \<and> new_fuel v = 0)"
    using v(1) assms(3) a7
  proof (cases rule: transition_cases)
    case (move nr nc)
    with v(2) show ?thesis by auto
  next
    case blocked
    with v(2) show ?thesis by auto
  qed (use assms(4) in simp_all)
  have indep: "\<forall>f0. 0 \<le> f0 \<and> f0 < 11 \<longrightarrow>
        (\<exists>s0 rw0 dn0 p0 d0 f0'. P_lookup (encode r c p d f0) a = Some [(1, s0, rw0, dn0)] \<and>
           decode s0 = Some (new_row v, new_col v, p0, d0, f0'))"
  proof (intro allI impI)
    fix f0 :: int assume f0: "0 \<le> f0 \<and> f0 < 11"
    with v(1) have v0: "valid_state (r, c, p, d, f0)" by (simp add: valid_state_def)
    from transition_Some[OF v0 assms(3) a7] obtain w where
      w: "transition r c p d f0 a = Some w" by blast
    from transition_valid[OF v0 assms(3) a7 w]
    have "decode (encode (new_row w) (new_col w) (new_pass_idx w) d (new_fuel w)) =
       Some (new_row w, new_col w, new_pass_idx w, d, new_fuel w)"
      by (rule decode_encode)
    with transition_position_fuel[OF v(2) w] P_lookup_at[OF v0 assms(3) a7 w]
    show "\<exists>s0 rw0 dn0 p0 d0 f0'. P_lookup (encode r c p d f0) a = Some [(1, s0, rw0, dn0)] \<and>
           decode s0 = Some (new_row v, new_col v, p0, d0, f0')"
      by auto
  qed
  from v(3,4) fuel indep show ?thesis by blast
qed

theorem C4_fuel_consumption_witness:
  "decode 187 = Some (0, 0, 4, 1, 0) \<and>
   (\<exists>s' r' c' p' d'. P_lookup 187 0 = Some [(1, s', - 10, False)] \<and>
      decode s' = Some (r', c', p', d', 0) \<and> (r', c') \<noteq> (0, 0))"
proof -
  have d: "decode 187 = Some (0, 0, 4, 1, 0)" by (simp add: decode_def)
  have d': "decode 1287 = Some (1, 0, 4, 1, 0)" by (simp add: decode_def)
  from C4_fuel_consumption[of 187 0 0 0 4 1 0, OF _ _ _ _ d] entry_187_south d'
  have "\<exists>s' r' c' p' d'. P_lookup 187 0 = Some [(1, s', - 10, False)] \<and>
      decode s' = Some (r', c', p', d', 0) \<and> (r', c') \<noteq> (0, 0)"
    by auto
  with d show ?thesis by blast
qed




text \<open>
  C6. Every reward in the table is -10, -1 or 20.
\<close>

theorem C6_reward_values:
  assumes "0 \<le> s" "s < 5500" "0 \<le> a" "a < 7"
  shows "\<exists>s' rw dn. P_lookup s a = Some [(1, s', rw, dn)] \<and> rw \<in> {- 10, - 1, 20}"
proof -
  from P_lookup_eq[OF assms] obtain r c p d f v where
    v: "valid_state (r, c, p, d, f)" "transition r c p d f a = Some v"
    "P_lookup s a = Some [(1, encode (new_row v) (new_col v) (new_pass_idx v) d (new_fuel v),
                           reward v, done_flag v)]"
    by blast
  have "reward v \<in> {- 10, - 1, 20}"
    using v(1) assms(3,4)
    by (cases rule: transition_cases) (use v(2) in auto)
  with v(3) show ?thesis by blast
qed

theorem C6_reward_values_witness:
  "(0::int) \<le> 21 \<and> (21::int) < 5500 \<and> (0::int) \<le> 4 \<and> (4::int) < 7 \<and>
   (\<exists>s' rw dn. P_lookup 21 4 = Some [(1, s', rw, dn)] \<and> rw \<in> {- 10, - 1, 20})"
  using C6_reward_values[of 21 4] by simp

text \<open>
  C7. For a movement action (0 to 3) whose successor has the same taxi position as the
  source state, the successor is the source state itself (in particular the fuel is
  unchanged), the reward is -1 and \<open>done\<close> is false. In particular, moving west from
  column 0 leaves column and fuel unchanged, with reward -1.
\<close>

theorem C7_blocked_move:
  assumes "0 \<le> s" "s < 5500" "0 \<le> a" "a < 4" "decode s = Some (r, c, p, d, f)"
  shows "\<exists>s' rw dn r' c' p' d' f'.
     P_lookup s a = Some [(1, s', rw, dn)] \<and> decode s' = Some (r', c', p', d', f') \<and>
     ((r', c') = (r, c) \<longrightarrow> s' = s \<and> f' = f \<and> rw = - 1 \<and> \<not> dn) \<and>
     (c = 0 \<and> a = 3 \<longrightarrow> c' = c \<and> f' = f \<and> rw = - 1)"
proof -
  from assms(4) have a7: "a < 7" by simp
  from assms(1-3) a7 assms(5) obtain v where v: "valid_state (r, c, p, d, f)"
    "transition r c p d f a = Some v"
    "P_lookup s a = Some [(1, encode (new_row v) (new_col v) (new_pass_idx v) d (new_fuel v),
                           reward v, done_flag v)]"
    "decode (encode (new_row v) (new_col v) (new_pass_idx v) d (new_fuel v)) =
       Some (new_row v, new_col v, new_pass_idx v, d, new_fuel v)"
    "valid_state (new_row v, new_col v, new_pass_idx v, d, new_fuel v)"
    by (rule table_step)
  note s = encode_decode[OF assms(5)]
  have "((new_row v, new_col v) = (r, c) \<longrightarrow>
       encode (new_row v) (new_col v) (new_pass_idx v) d (new_fuel v) = s \<and>
       new_fuel v = f \<and> reward v = - 1 \<and> \<not> done_flag v) \<and>
     (c = 0 \<and> a = 3 \<longrightarrow> new_col v = c \<and> new_fuel v = f \<and> reward v = - 1)"
    using v(1) assms(3) a7
  proof (cases rule: transition_cases)
    case (move nr nc)
    with v(2) show ?thesis by auto
  next
    case blocked
    with v(2) s show ?thesis by auto
  qed (use assms(4) in simp_all)
  with v(3,4) show ?thesis by blast
qed

theorem C7_blocked_move_witness:
  "decode 21 = Some (0, 0, 0, 1, 10) \<and>
   (\<exists>r' c' p' d' f'. P_lookup 21 3 = Some [(1, 21, - 1, False)] \<and>
      decode 21 = Some (r', c', p', d', f') \<and> (r', c') = (0, 0) \<and> f' = 10)"
proof -
  have d: "decode 21 = Some (0, 0, 0, 1, 10)" by (simp add: decode_def)
  from C7_blocked_move[of 21 3 0 0 0 1 10, OF _ _ _ _ d] entry_21_west d
  have "\<exists>r' c' p' d' f'. P_lookup 21 3 = Some [(1, 21, - 1, False)] \<and>
      decode 21 = Some (r', c', p', d', f') \<and> (r', c') = (0, 0) \<and> f' = 10"
    by auto
  with d show ?thesis by blast
qed

text \<open>
  C8. With the passenger in the taxi and the taxi on one of the four named locations other
  than the destination's, dropoff (action 5) puts the passenger at the index of that
  location, with reward -1 and \<open>done\<close> false.
\<close>

theorem C8_wrong_dropoff:
  assumes "0 \<le> s" "s < 5500" "decode s = Some (r, c, p, d, f)"
    and "p = 4" "(r, c) \<in> set locs" "py_index locs d \<noteq> Some (r, c)"
  shows "\<exists>s' rw dn r' c' p' d' f'.
     P_lookup s 5 = Some [(1, s', rw, dn)] \<and> decode s' = Some (r', c', p', d', f') \<and>
     list_index locs (r, c) = Some p' \<and> rw = - 1 \<and> \<not> dn"
proof -
  have a: "(0::int) \<le> 5" "(5::int) < 7" by simp_all
  from assms(1,2) a assms(3) obtain v where v: "valid_state (r, c, p, d, f)"
    "transition r c p d f 5 = Some v"
    "P_lookup s 5 = Some [(1, encode (new_row v) (new_col v) (new_pass_idx v) d (new_fuel v),
                           reward v, done_flag v)]"
    "decode (encode (new_row v) (new_col v) (new_pass_idx v) d (new_fuel v)) =
       Some (new_row v, new_col v, new_pass_idx v, d, new_fuel v)"
    "valid_state (new_row v, new_col v, new_pass_idx v, d, new_fuel v)"
    by (rule table_step)
  from v(1) have d: "py_index locs d = Some (locs ! nat d)"
    by (intro locs_index) (simp_all add: valid_state_def)
  have "list_index locs (r, c) = Some (new_pass_idx v) \<and> reward v = - 1 \<and> \<not> done_flag v"
    using v(2) assms(4-6) d
    by (auto simp add: transition_def vertical_def horizontal_and_rest_def east_test_def
        west_test_def dropoff_def consume_fuel_def Let_def split: Option.bind_splits)
  with v(3,4) show ?thesis by blast
qed

theorem C8_wrong_dropoff_witness:
  "decode 5252 = Some (4, 3, 4, 1, 5) \<and> (4, 3) \<in> set locs \<and>
   py_index locs 1 \<noteq> Some (4, 3) \<and>
   (\<exists>s' r' c' d' f'. P_lookup 5252 5 = Some [(1, s', - 1, False)] \<and>
      decode s' = Some (r', c', 3, d', f'))"
proof -
  have d: "decode 5252 = Some (4, 3, 4, 1, 5)" by (simp add: decode_def)
  have m: "(4, 3) \<in> set locs" by (simp add: locs_def)
  have n: "py_index locs 1 \<noteq> Some (4, 3)" by (simp add: py_index_def locs_def)
  have i: "list_index locs (4, 3) = Some 3" by (simp add: locs_def)
  from C8_wrong_dropoff[of 5252 4 3 4 1 5, OF _ _ d _ m n] i
  have "\<exists>s' r' c' d' f'. P_lookup 5252 5 = Some [(1, s', - 1, False)] \<and>
      decode s' = Some (r', c', 3, d', f')"
    by auto
  with d m n show ?thesis by blast
qed

text \<open>
  C9. Every successor index in the table lies in \<open>[0, 5500)\<close>, and its fuel component
  lies in \<open>[0, 10]\<close>.
\<close>

theorem C9_successor_range:
  assumes "0 \<le> s" "s < 5500" "0 \<le> a" "a < 7"
  shows "\<exists>s' rw dn r' c' p' d' f'.
     P_lookup s a = Some [(1, s', rw, dn)] \<and> 0 \<le> s' \<and> s' < 5500 \<and>
     decode s' = Some (r', c', p', d', f') \<and> 0 \<le> f' \<and> f' \<le> 10"
proof -
  from decode_total[OF assms(1,2)] obtain r c p d f where
    k: "decode s = Some (r, c, p, d, f)" by auto
  from assms k obtain v where v: "valid_state (r, c, p, d, f)"
    "transition r c p d f a = Some v"
    "P_lookup s a = Some [(1, encode (new_row v) (new_col v) (new_pass_idx v) d (new_fuel v),
                           reward v, done_flag v)]"
    "decode (encode (new_row v) (new_col v) (new_pass_idx v) d (new_fuel v)) =
       Some (new_row v, new_col v, new_pass_idx v, d, new_fuel v)"
    "valid_state (new_row v, new_col v, new_pass_idx v, d, new_fuel v)"
    by (rule table_step)
  from v(5) have "0 \<le> new_fuel v \<and> new_fuel v \<le> 10" by (simp add: valid_state_def)
  with encode_range[OF v(5)] v(3,4) show ?thesis by blast
qed

theorem C9_successor_range_witness:
  "(0::int) \<le> 187 \<and> (187::int) < 5500 \<and> (0::int) \<le> 0 \<and> (0::int) < 7 \<and>
   (\<exists>s' rw dn r' c' p' d' f'.
     P_lookup 187 0 = Some [(1, s', rw, dn)] \<and> 0 \<le> s' \<and> s' < 5500 \<and>
     decode s' = Some (r', c', p', d', f') \<and> 0 \<le> f' \<and> f' \<le> 10)"
  using C9_successor_range[of 187 0] by simp

text \<open>
  C10. Every successor in the table has the destination of its source state.
\<close>

theorem C10_destination_kept:
  assumes "0 \<le> s" "s < 5500" "0 \<le> a" "a < 7" "decode s = Some (r, c, p, d, f)"
  shows "\<exists>s' rw dn r' c' p' f'.
     P_lookup s a = Some [(1, s', rw, dn)] \<and> decode s' = Some (r', c', p', d, f')"
proof -
  from assms obtain v where v: "valid_state (r, c, p, d, f)"
    "transition r c p d f a = Some v"
    "P_lookup s a = Some [(1, encode (new_row v) (new_col v) (new_pass_idx v) d (new_fuel v),
                           reward v, done_flag v)]"
    "decode (encode (new_row v) (new_col v) (new_pass_idx v) d (new_fuel v)) =
       Some (new_row v, new_col v, new_pass_idx v, d, new_fuel v)"
    "valid_state (new_row v, new_col v, new_pass_idx v, d, new_fuel v)"
    by (rule table_step)
  from v(3,4) show ?thesis by blast
qed

theorem C10_destination_kept_witness:
  "decode 1077 = Some (0, 4, 4, 1, 10) \<and>
   (\<exists>s' rw dn r' c' p' f'.
     P_lookup 1077 5 = Some [(1, s', rw, dn)] \<and> decode s' = Some (r', c', p', 1, f'))"
proof -
  have d: "decode 1077 = Some (0, 4, 4, 1, 10)" by (simp add: decode_def)
  from C10_destination_kept[of 1077 5 0 4 4 1 10, OF _ _ _ _ d] d
  show ?thesis by simp
qed

end
